theory Spec2Isabelle
  imports Main "HOL-Library.Word" "HOL-Library.Monad_Syntax" "HOL-Library.AList"
begin

section \<open>Pages\<close>

text \<open>
  \<^verbatim>\<open>PageID\<close> is \<^verbatim>\<open>uint32_t\<close>, \<^verbatim>\<open>size_t\<close> is 64 bits wide, and the pin count is a
  \<^verbatim>\<open>std::atomic<int32_t>\<close>: a 32-bit word read as two's complement with \<open>sint\<close>.
  The code is modelled as it runs on one thread. Timers and the running averages of
  service times are left out. A call that crashes in C++ (division by zero, null or
  dangling dereference, index out of range, a signed overflow) or that cannot return has
  the result \<open>None\<close>.
\<close>

type_synonym PageID = "32 word"
type_synonym size_t = "64 word"
type_synonym page_ptr = nat
type_synonym node = nat

definition INVALID_PAGE_ID :: PageID where
  "INVALID_PAGE_ID = 0"

record Page =
  id_page :: PageID
  buffer :: "8 word list"
  size_page :: size_t
  dirty :: bool
  pin_count :: "32 word"

text \<open>\<^verbatim>\<open>Page(id, size)\<close>: the buffer comes from \<^verbatim>\<open>make_unique<uint8_t[]>(size)\<close>, all zero.\<close>

definition Page_new :: "PageID \<Rightarrow> size_t \<Rightarrow> Page" where
  "Page_new i sz =
     \<lparr>id_page = i, buffer = replicate (unat sz) 0, size_page = sz, dirty = False, pin_count = 0\<rparr>"

text \<open>\<^verbatim>\<open>pin\<close> and \<^verbatim>\<open>unpin\<close> are \<^verbatim>\<open>fetch_add(1)\<close> and \<^verbatim>\<open>fetch_add(-1)\<close>: they return the
  previous value.\<close>

definition pin :: "Page \<Rightarrow> 32 word \<times> Page" where
  "pin p = (pin_count p, p\<lparr>pin_count := pin_count p + 1\<rparr>)"

definition unpin :: "Page \<Rightarrow> 32 word \<times> Page" where
  "unpin p = (pin_count p, p\<lparr>pin_count := pin_count p - 1\<rparr>)"

definition is_dirty :: "Page \<Rightarrow> bool" where
  "is_dirty p = dirty p"

definition set_dirty :: "bool \<Rightarrow> Page \<Rightarrow> Page" where
  "set_dirty d p = p\<lparr>dirty := d\<rparr>"

text \<open>A sequence of \<^verbatim>\<open>pin()\<close> and \<^verbatim>\<open>unpin()\<close> calls on one page.\<close>

datatype pin_op = Pin | Unpin

fun apply_pin_ops :: "pin_op list \<Rightarrow> Page \<Rightarrow> Page" where
  "apply_pin_ops [] p = p"
| "apply_pin_ops (Pin # ops) p = apply_pin_ops ops (snd (pin p))"
| "apply_pin_ops (Unpin # ops) p = apply_pin_ops ops (snd (unpin p))"

text \<open>
  A \<^verbatim>\<open>std::unique_ptr<Page>\<close> is \<open>None\<close> when null, and otherwise the address it holds
  together with the page object that lives there: the owner contains its page. A
  \<^verbatim>\<open>Page*\<close> handed to a client is the address alone.
  The state outside the cache objects is the next unused address (every allocation
  gets an address never used before) and the function-local
  \<^verbatim>\<open>static size_t clock_hand\<close> of \<^verbatim>\<open>find_victim_in_set\<close>, one for the whole process.
\<close>

type_synonym unique_page = "(page_ptr \<times> Page) option"

record process =
  next_ptr :: page_ptr
  clock_hand :: size_t

definition process_start :: process where
  "process_start = \<lparr>next_ptr = 0, clock_hand = 0\<rparr>"

text \<open>\<^verbatim>\<open>std::make_unique<Page>(id, size)\<close>.\<close>

definition make_page :: "PageID \<Rightarrow> size_t \<Rightarrow> process \<Rightarrow> (page_ptr \<times> Page) \<times> process" where
  "make_page i sz m = ((next_ptr m, Page_new i sz), m\<lparr>next_ptr := Suc (next_ptr m)\<rparr>)"

section \<open>Locks\<close>

text \<open>
  A \<^verbatim>\<open>std::shared_mutex\<close> as the one thread sees it: free, or owned by the thread in
  shared or in exclusive mode. A thread that owns the mutex in either mode must not
  lock it again: \<^verbatim>\<open>lock_shared()\<close> and \<^verbatim>\<open>lock()\<close> are then undefined behaviour, the
  thread waits for itself for ever or the library throws \<^verbatim>\<open>std::system_error\<close>. The
  call in which this happens has no result.

  Every lock is released when its scope ends, so a mutex is free whenever a public
  member function is entered. The state of a mutex is followed through the functions
  in which the thread locks it a second time: \<^verbatim>\<open>CacheSection::fetch_page\<close>, and
  \<^verbatim>\<open>ConfigurableCache::new_page\<close> with \<^verbatim>\<open>ConfigurableCache::find_section_for_page\<close>.
  Every other acquisition in the code finds its mutex free and is not written out.

  Page locks: the \<^verbatim>\<open>boost::upgrade_lock<Page>\<close> that a client passes in holds no page, and
  the client holds no lock on a page that the call locks or destroys. The page locks
  taken inside a call are then granted, and the \<^verbatim>\<open>catch\<close> branches around them are never
  taken.
\<close>

datatype lock_state = Unlocked | Shared | Exclusive

definition lock_shared :: "lock_state \<Rightarrow> lock_state option" where
  "lock_shared mtx = (if mtx = Unlocked then Some Shared else None)"

definition lock_unique :: "lock_state \<Rightarrow> lock_state option" where
  "lock_unique mtx = (if mtx = Unlocked then Some Exclusive else None)"

definition unlock :: "lock_state \<Rightarrow> lock_state" where
  "unlock mtx = Unlocked"

section \<open>CacheSection\<close>

record CacheSectionStats =
  accesses :: size_t
  hits :: size_t
  misses :: size_t

definition CacheSectionStats_new :: CacheSectionStats where
  "CacheSectionStats_new = \<lparr>accesses = 0, hits = 0, misses = 0\<rparr>"

datatype Structure = DirectMapped | SetAssociative | FullyAssociative

record CacheEntry =
  page :: unique_page
  id_entry :: PageID
  valid :: bool
  referenced :: bool

definition CacheEntry_new :: CacheEntry where
  "CacheEntry_new = \<lparr>page = None, id_entry = INVALID_PAGE_ID, valid = False, referenced = False\<rparr>"

text \<open>
  \<^verbatim>\<open>pages\<close> is a \<^verbatim>\<open>std::list<CacheEntry>\<close> and \<^verbatim>\<open>page_map\<close> holds iterators into it.
  A list node keeps its identity when it is spliced, so each node carries a handle
  (\<open>node\<close>) and \<open>page_map\<close> maps identifiers to handles; \<open>next_node\<close> is the next
  unused handle.
\<close>

record CacheSection =
  section_id :: size_t
  size_sec :: size_t
  line_size :: size_t
  structure_sec :: Structure
  associativity :: size_t
  num_sets :: size_t
  pages_capacity :: size_t
  sets :: "CacheEntry list list"
  pages :: "(node \<times> CacheEntry) list"
  page_map :: "PageID \<rightharpoonup> node"
  next_node :: node
  stats :: CacheSectionStats

definition set_based :: "Structure \<Rightarrow> bool" where
  "set_based st = (st = DirectMapped \<or> st = SetAssociative)"

definition fresh_sets :: "size_t \<Rightarrow> size_t \<Rightarrow> CacheEntry list list" where
  "fresh_sets ns assoc = replicate (unat ns) (replicate (unat assoc) CacheEntry_new)"

text \<open>The constructor divides by \<^verbatim>\<open>line_size * associativity\<close> first, then by
  \<^verbatim>\<open>line_size\<close>.\<close>

definition CacheSection_new ::
  "size_t \<Rightarrow> size_t \<Rightarrow> size_t \<Rightarrow> Structure \<Rightarrow> size_t \<Rightarrow> CacheSection option" where
  "CacheSection_new sid sz ls st assoc =
     (if ls * assoc = 0 \<or> ls = 0 then None
      else
        let ns0 = sz div (ls * assoc);
            ns = (if ns0 = 0 then 1 else ns0)
        in Some \<lparr>section_id = sid, size_sec = sz, line_size = ls, structure_sec = st,
                 associativity = assoc, num_sets = ns, pages_capacity = sz div ls,
                 sets = (if set_based st then fresh_sets ns assoc else []),
                 pages = [], page_map = Map.empty, next_node = 0,
                 stats = CacheSectionStats_new\<rparr>)"

definition get_set_index :: "CacheSection \<Rightarrow> PageID \<Rightarrow> nat option" where
  "get_set_index s i = (if num_sets s = 0 then None else Some (unat (ucast i mod num_sets s)))"

fun find_first :: "('a \<Rightarrow> bool) \<Rightarrow> 'a list \<Rightarrow> nat option" where
  "find_first P [] = None"
| "find_first P (x # xs) = (if P x then Some 0 else map_option Suc (find_first P xs))"

definition elem_at :: "'a list \<Rightarrow> nat \<Rightarrow> 'a option" where
  "elem_at xs i = (if i < length xs then Some (xs ! i) else None)"

definition count_hit :: "CacheSectionStats \<Rightarrow> CacheSectionStats" where
  "count_hit st = st\<lparr>accesses := accesses st + 1, hits := hits st + 1\<rparr>"

definition count_miss :: "CacheSectionStats \<Rightarrow> CacheSectionStats" where
  "count_miss st = st\<lparr>accesses := accesses st + 1, misses := misses st + 1\<rparr>"

text \<open>\<^verbatim>\<open>pages.splice(pages.begin(), pages, it)\<close>: the node moves to the front.\<close>

definition splice_front :: "node \<Rightarrow> (node \<times> CacheEntry) list \<Rightarrow> (node \<times> CacheEntry) list option" where
  "splice_front n ps =
     (case map_of ps n of None \<Rightarrow> None | Some e \<Rightarrow> Some ((n, e) # AList.delete n ps))"

text \<open>
  \<^verbatim>\<open>CacheSection::fetch_page\<close>. The result is the page pointer, \<open>None\<close> for
  \<^verbatim>\<open>nullptr\<close>. The function takes a \<^verbatim>\<open>shared_lock\<close> on the section's mutex. On a hit it
  releases that lock (\<^verbatim>\<open>guard.unlock()\<close>) before it takes the \<^verbatim>\<open>unique_lock\<close> under which
  it counts the hit. On a miss it takes the \<^verbatim>\<open>unique_lock\<close> while \<^verbatim>\<open>guard\<close> still holds the
  mutex. No path calls \<^verbatim>\<open>pin\<close>.
\<close>

definition fetch_page_sec ::
  "CacheSection \<Rightarrow> PageID \<Rightarrow> (page_ptr option \<times> CacheSection) option" where
  "fetch_page_sec s i =
     do {
       guard \<leftarrow> lock_shared Unlocked;
       if set_based (structure_sec s) then
         (if sets s = [] then Some (None, s)
          else do {
            set_idx \<leftarrow> get_set_index s i;
            st \<leftarrow> elem_at (sets s) set_idx;
            (case find_first (\<lambda>e. valid e \<and> id_entry e = i \<and> page e \<noteq> None) st of
               Some k \<Rightarrow> do {
                 stats_guard \<leftarrow> lock_unique (unlock guard);
                 Some (map_option fst (page (st ! k)),
                       s\<lparr>stats := count_hit (stats s),
                         sets := (sets s)[set_idx := st[k := (st ! k)\<lparr>referenced := True\<rparr>]]\<rparr>)
               }
             | None \<Rightarrow> do {
                 stats_guard \<leftarrow> lock_unique guard;
                 Some (None, s\<lparr>stats := count_miss (stats s)\<rparr>)
               })
          })
       else
         (case page_map s i of
            Some n \<Rightarrow> do {
              e \<leftarrow> map_of (pages s) n;
              if valid e \<and> page e \<noteq> None then do {
                update_guard \<leftarrow> lock_unique (unlock guard);
                ps \<leftarrow> splice_front n (pages s);
                Some (map_option fst (page e), s\<lparr>pages := ps, stats := count_hit (stats s)\<rparr>)
              } else do {
                stats_guard \<leftarrow> lock_unique guard;
                Some (None, s\<lparr>stats := count_miss (stats s)\<rparr>)
              }
            }
          | None \<Rightarrow> do {
              stats_guard \<leftarrow> lock_unique guard;
              Some (None, s\<lparr>stats := count_miss (stats s)\<rparr>)
            })
     }"

lemma filter_update_less:
  "i < length xs \<Longrightarrow> P (xs ! i) \<Longrightarrow> \<not> P y \<Longrightarrow>
   length (filter P (xs[i := y])) < length (filter P xs)"
proof (induction xs arbitrary: i)
  case Nil
  then show ?case by simp
next
  case (Cons x xs)
  then show ?case by (cases i) auto
qed

text \<open>
  The body of the \<^verbatim>\<open>do ... while (pos != start_pos)\<close> loop of \<^verbatim>\<open>find_victim_in_set\<close>
  on one set: the position it stops at and the set with the reference bits cleared
  on the way. Each turn clears a reference bit that was set, so the loop ends.
\<close>

function clock_scan ::
  "size_t \<Rightarrow> size_t \<Rightarrow> size_t \<Rightarrow> CacheEntry list \<Rightarrow> (size_t \<times> CacheEntry list) option" where
  "clock_scan assoc start pos st =
     (if \<not> unat pos < length st then None
      else if \<not> referenced (st ! unat pos) then Some (pos, st)
      else
        let st' = st[unat pos := (st ! unat pos)\<lparr>referenced := False\<rparr>];
            pos' = (pos + 1) mod assoc
        in if pos' \<noteq> start then clock_scan assoc start pos' st' else Some (pos', st'))"
  by pat_completeness auto
termination
  by (relation "measure (\<lambda>(assoc, start, pos, st). length (filter referenced st))")
     (auto intro: filter_update_less)

declare clock_scan.simps [simp del]

text \<open>Both exits of \<^verbatim>\<open>find_victim_in_set\<close> set \<^verbatim>\<open>clock_hand = (pos + 1) % associativity\<close>
  and return \<^verbatim>\<open>pos\<close>.\<close>

definition find_victim_in_set ::
  "CacheSection \<Rightarrow> nat \<Rightarrow> process \<Rightarrow> (nat \<times> CacheSection \<times> process) option" where
  "find_victim_in_set s set_index m =
     (if associativity s = 0 then None
      else do {
        st \<leftarrow> elem_at (sets s) set_index;
        let start_pos = clock_hand m mod associativity s;
        (pos, st') \<leftarrow> clock_scan (associativity s) start_pos start_pos st;
        Some (unat pos, s\<lparr>sets := (sets s)[set_index := st']\<rparr>,
              m\<lparr>clock_hand := (pos + 1) mod associativity s\<rparr>)
      })"

text \<open>\<^verbatim>\<open>if (victim.valid && victim.page && victim.page->is_dirty())
  victim.page->set_dirty(false);\<close> No backing store is written.\<close>

definition clean_victim :: "CacheEntry \<Rightarrow> CacheEntry" where
  "clean_victim e =
     (case page e of
        Some (a, p) \<Rightarrow> (if valid e \<and> is_dirty p then e\<lparr>page := Some (a, set_dirty False p)\<rparr> else e)
      | None \<Rightarrow> e)"

text \<open>\<^verbatim>\<open>pages.emplace_front()\<close>, the new entry filled in, and \<^verbatim>\<open>page_map[id] = pages.begin()\<close>.\<close>

definition emplace_front_page ::
  "CacheSection \<Rightarrow> PageID \<Rightarrow> process \<Rightarrow> page_ptr option \<times> CacheSection \<times> process" where
  "emplace_front_page s i m =
     (let (pg, m1) = make_page i (line_size s) m;
          e = CacheEntry_new\<lparr>page := Some pg, id_entry := i, valid := True\<rparr>;
          n = next_node s
      in (Some (fst pg),
          s\<lparr>pages := (n, e) # pages s, page_map := (page_map s)(i \<mapsto> n), next_node := Suc n\<rparr>,
          m1))"

text \<open>
  \<^verbatim>\<open>CacheSection::allocate_page\<close>. In the fully-associative case the victim is
  \<^verbatim>\<open>std::prev(pages.end())\<close>, the last node, whatever its pin count.
  Storing the new page in the entry destroys the page the entry owned.
\<close>

definition allocate_page ::
  "CacheSection \<Rightarrow> PageID \<Rightarrow> process \<Rightarrow> (page_ptr option \<times> CacheSection \<times> process) option" where
  "allocate_page s i m =
     (if set_based (structure_sec s) then do {
        let s0 = (if sets s = [] then s\<lparr>sets := fresh_sets (num_sets s) (associativity s)\<rparr> else s);
        set_idx \<leftarrow> get_set_index s0 i;
        st \<leftarrow> elem_at (sets s0) set_idx;
        (case find_first (\<lambda>e. \<not> valid e) st of
           Some k \<Rightarrow>
             let (pg, m1) = make_page i (line_size s0) m;
                 e = (st ! k)\<lparr>page := Some pg, id_entry := i, valid := True, referenced := True\<rparr>
             in Some (Some (fst pg), s0\<lparr>sets := (sets s0)[set_idx := st[k := e]]\<rparr>, m1)
         | None \<Rightarrow> do {
             (victim_idx, s1, m1) \<leftarrow> find_victim_in_set s0 set_idx m;
             st1 \<leftarrow> elem_at (sets s1) set_idx;
             victim \<leftarrow> elem_at st1 victim_idx;
             (let (pg, m2) = make_page i (line_size s1) m1;
                  e = (clean_victim victim)\<lparr>page := Some pg, id_entry := i, valid := True,
                                            referenced := True\<rparr>
              in Some (Some (fst pg), s1\<lparr>sets := (sets s1)[set_idx := st1[victim_idx := e]]\<rparr>, m2))
           })
      }
      else if of_nat (length (pages s)) < pages_capacity s then Some (emplace_front_page s i m)
      else if pages s \<noteq> [] then
        let (n, victim) = last (pages s);
            pm = (if valid victim then (page_map s)(id_entry victim := None) else page_map s);
            (pg, m1) = make_page i (line_size s) m;
            e = (clean_victim victim)\<lparr>page := Some pg, id_entry := i, valid := True\<rparr>
        in Some (Some (fst pg),
                 s\<lparr>pages := (n, e) # butlast (pages s), page_map := pm(i \<mapsto> n)\<rparr>, m1)
      else Some (emplace_front_page s i m))"

text \<open>\<^verbatim>\<open>CacheSection::new_page\<close>: always counted as a miss. The lock under which the miss
  is counted is released before \<^verbatim>\<open>allocate_page\<close> takes its own.\<close>

definition new_page_sec ::
  "CacheSection \<Rightarrow> PageID \<Rightarrow> process \<Rightarrow> (page_ptr option \<times> CacheSection \<times> process) option" where
  "new_page_sec s i m = allocate_page (s\<lparr>stats := count_miss (stats s)\<rparr>) i m"

text \<open>\<^verbatim>\<open>CacheSection::pin_page\<close>, \<^verbatim>\<open>unpin_page\<close> and \<^verbatim>\<open>flush_page\<close> only act on the page
  they are given.\<close>

definition pin_page_sec :: "Page \<Rightarrow> Page" where
  "pin_page_sec p = snd (pin p)"

definition unpin_page_sec :: "bool \<Rightarrow> Page \<Rightarrow> Page" where
  "unpin_page_sec d p = snd (unpin (if d then set_dirty True p else p))"

definition flush_page_sec :: "Page \<Rightarrow> Page" where
  "flush_page_sec p = set_dirty False p"

definition reset_stats :: "CacheSection \<Rightarrow> CacheSection" where
  "reset_stats s = s\<lparr>stats := CacheSectionStats_new\<rparr>"

text \<open>\<^verbatim>\<open>CacheSection::resize\<close>: unless the size is unchanged, every set is rebuilt
  empty, or the list and the index are cleared; no page is flushed.\<close>

definition resize :: "CacheSection \<Rightarrow> size_t \<Rightarrow> CacheSection option" where
  "resize s new_size =
     (if new_size = size_sec s then Some s
      else if line_size s = 0 then None
      else
        let s1 = s\<lparr>size_sec := new_size, pages_capacity := new_size div line_size s\<rparr>
        in if set_based (structure_sec s) then
             (if line_size s * associativity s = 0 then None
              else
                let ns0 = new_size div (line_size s * associativity s);
                    ns = (if ns0 = 0 then 1 else ns0)
                in Some (s1\<lparr>num_sets := ns, sets := fresh_sets ns (associativity s)\<rparr>))
           else Some (s1\<lparr>pages := [], page_map := Map.empty\<rparr>))"

definition page_count :: "CacheSection \<Rightarrow> size_t" where
  "page_count s =
     (if set_based (structure_sec s) then of_nat (length (filter valid (concat (sets s))))
      else of_nat (length (pages s)))"

text \<open>The identifiers in the LRU list, most recently used first, and the pages a
  section owns.\<close>

definition lru_order :: "CacheSection \<Rightarrow> PageID list" where
  "lru_order s = map (\<lambda>(n, e). id_entry e) (pages s)"

definition entries :: "CacheSection \<Rightarrow> CacheEntry list" where
  "entries s = concat (sets s) @ map snd (pages s)"

definition owned_pages :: "CacheSection \<Rightarrow> (page_ptr \<times> Page) list" where
  "owned_pages s = List.map_filter page (entries s)"

definition on_entry_page :: "page_ptr \<Rightarrow> (Page \<Rightarrow> Page) \<Rightarrow> CacheEntry \<Rightarrow> CacheEntry" where
  "on_entry_page a f e =
     (case page e of
        Some (b, p) \<Rightarrow> (if b = a then e\<lparr>page := Some (b, f p)\<rparr> else e)
      | None \<Rightarrow> e)"

definition on_section_page :: "page_ptr \<Rightarrow> (Page \<Rightarrow> Page) \<Rightarrow> CacheSection \<Rightarrow> CacheSection" where
  "on_section_page a f s =
     s\<lparr>sets := map (map (on_entry_page a f)) (sets s),
       pages := map (\<lambda>(n, e). (n, on_entry_page a f e)) (pages s)\<rparr>"

section \<open>ConfigurableCache\<close>

text \<open>
  \<^verbatim>\<open>sections\<close> is a \<^verbatim>\<open>std::unordered_map\<close> from section identifiers to sections; it is
  an association list with distinct keys, and its order stands for the iteration
  order, which C++ leaves unspecified.
\<close>

record ConfigurableCache =
  total_size :: size_t
  available_size :: size_t
  page_size :: size_t
  next_section_id :: size_t
  next_page_id :: size_t
  sections :: "(size_t \<times> CacheSection) list"
  default_section_id :: size_t
  page_to_section_map :: "PageID \<rightharpoonup> size_t"
  page_ranges :: "(PageID \<times> PageID) list"
  range_section_ids :: "size_t list"

definition create_section ::
  "ConfigurableCache \<Rightarrow> size_t \<Rightarrow> size_t \<Rightarrow> Structure \<Rightarrow> size_t \<Rightarrow> (size_t \<times> ConfigurableCache) option" where
  "create_section c sz ls st assoc =
     (let sz' = (if sz > available_size c then available_size c else sz);
          sid = next_section_id c
      in do {
        s \<leftarrow> CacheSection_new sid sz' ls st assoc;
        Some (sid, c\<lparr>next_section_id := sid + 1,
                     sections := AList.update sid s (sections c),
                     available_size := available_size c - sz'\<rparr>)
      })"

text \<open>The constructor creates the default section, fully associative, with the
  default associativity 8 of \<^verbatim>\<open>create_section\<close>, over the whole capacity.\<close>

definition ConfigurableCache_new :: "size_t \<Rightarrow> size_t \<Rightarrow> size_t \<Rightarrow> ConfigurableCache option" where
  "ConfigurableCache_new tsz psz default_line_size =
     do {
       (sid, c) \<leftarrow> create_section
                     \<lparr>total_size = tsz, available_size = tsz, page_size = psz,
                      next_section_id = 0, next_page_id = 0, sections = [],
                      default_section_id = 0, page_to_section_map = Map.empty,
                      page_ranges = [], range_section_ids = []\<rparr>
                     tsz default_line_size FullyAssociative 8;
       Some (c\<lparr>default_section_id := sid\<rparr>)
     }"

definition has_section :: "ConfigurableCache \<Rightarrow> size_t \<Rightarrow> bool" where
  "has_section c sid = (map_of (sections c) sid \<noteq> None)"

definition in_range :: "PageID \<Rightarrow> PageID \<times> PageID \<Rightarrow> bool" where
  "in_range i r = (i \<ge> fst r \<and> i \<le> snd r)"

text \<open>\<^verbatim>\<open>get_section_for_page\<close>: the override map, then the first range that contains
  the identifier, then the default section.\<close>

definition get_section_for_page :: "ConfigurableCache \<Rightarrow> PageID \<Rightarrow> size_t option" where
  "get_section_for_page c i =
     (case page_to_section_map c i of
        Some sid \<Rightarrow> Some sid
      | None \<Rightarrow>
          (case find_first (in_range i) (page_ranges c) of
             Some k \<Rightarrow> elem_at (range_section_ids c) k
           | None \<Rightarrow> Some (default_section_id c)))"

text \<open>
  \<^verbatim>\<open>find_section_for_page\<close> returns a pointer to a section; the model returns its key.
  A mapping to a section that does not exist is skipped. \<open>None\<close> is the null
  pointer: every caller dereferences it, \<^verbatim>\<open>new_page\<close> after it has fallen back on
  \<^verbatim>\<open>sections[default_section_id]\<close>, which is null as well when this function found no
  section.
  The function takes a \<^verbatim>\<open>shared_lock\<close> on the router's mutex; its first argument is the
  state of that mutex when it is called.
\<close>

fun range_section ::
  "(size_t \<Rightarrow> bool) \<Rightarrow> size_t list \<Rightarrow> PageID \<Rightarrow> (nat \<times> PageID \<times> PageID) list \<Rightarrow> size_t option \<Rightarrow> size_t option" where
  "range_section has ids i [] dflt = dflt"
| "range_section has ids i ((k, r) # rs) dflt =
     (if in_range i r then
        (case elem_at ids k of
           None \<Rightarrow> None
         | Some sid \<Rightarrow> if has sid then Some sid else range_section has ids i rs dflt)
      else range_section has ids i rs dflt)"

definition default_or_first :: "ConfigurableCache \<Rightarrow> size_t option" where
  "default_or_first c =
     (if has_section c (default_section_id c) then Some (default_section_id c)
      else (case sections c of [] \<Rightarrow> None | (k, s) # rest \<Rightarrow> Some k))"

definition find_section_for_page ::
  "lock_state \<Rightarrow> ConfigurableCache \<Rightarrow> PageID \<Rightarrow> size_t option" where
  "find_section_for_page mtx c i =
     do {
       guard \<leftarrow> lock_shared mtx;
       (let by_ranges = range_section (has_section c) (range_section_ids c) i
                          (enumerate 0 (page_ranges c)) (default_or_first c)
        in case page_to_section_map c i of
             Some sid \<Rightarrow> if has_section c sid then Some sid else by_ranges
           | None \<Rightarrow> by_ranges)
     }"

definition put_section :: "size_t \<Rightarrow> CacheSection \<Rightarrow> ConfigurableCache \<Rightarrow> ConfigurableCache" where
  "put_section sid s c = c\<lparr>sections := AList.update sid s (sections c)\<rparr>"

text \<open>Reading and writing through a \<^verbatim>\<open>Page*\<close>: the page object with that address,
  wherever it is owned. An address no entry owns belongs to a destroyed page.\<close>

definition deref :: "ConfigurableCache \<Rightarrow> page_ptr \<Rightarrow> Page option" where
  "deref c a = map_of (concat (map (\<lambda>(k, s). owned_pages s) (sections c))) a"

definition on_page :: "page_ptr \<Rightarrow> (Page \<Rightarrow> Page) \<Rightarrow> ConfigurableCache \<Rightarrow> ConfigurableCache" where
  "on_page a f c = c\<lparr>sections := map (\<lambda>(k, s). (k, on_section_page a f s)) (sections c)\<rparr>"

text \<open>
  \<^verbatim>\<open>ConfigurableCache::new_page\<close> holds a \<^verbatim>\<open>lock_guard\<close> on the router's mutex for the
  whole call, and calls \<^verbatim>\<open>find_section_for_page\<close> under it. \<^verbatim>\<open>next_page_id\<close> is a
  \<^verbatim>\<open>size_t\<close> and \<^verbatim>\<open>PageID new_id = next_page_id++\<close> keeps its low 32 bits. The new page
  is pinned.
\<close>

definition new_page ::
  "ConfigurableCache \<Rightarrow> process \<Rightarrow> (page_ptr option \<times> ConfigurableCache \<times> process) option" where
  "new_page c m =
     do {
       guard \<leftarrow> lock_unique Unlocked;
       (let npi = (if next_page_id c = 0 then 1 else next_page_id c);
            new_id = (ucast npi :: PageID);
            c1 = c\<lparr>next_page_id := npi + 1\<rparr>
        in do {
          sid \<leftarrow> find_section_for_page guard c1 new_id;
          s \<leftarrow> map_of (sections c1) sid;
          (r, s', m') \<leftarrow> new_page_sec s new_id m;
          (case r of
             Some a \<Rightarrow> Some (Some a, on_page a pin_page_sec (put_section sid s' c1), m')
           | None \<Rightarrow> Some (None, put_section sid s' c1, m'))
        })
     }"

text \<open>\<^verbatim>\<open>ConfigurableCache::fetch_page\<close> takes no lock of its own. When the section's
  \<^verbatim>\<open>fetch_page\<close> returns \<^verbatim>\<open>nullptr\<close>, \<^verbatim>\<open>new_page\<close> is called on the same section; no
  path pins.\<close>

definition fetch_page ::
  "ConfigurableCache \<Rightarrow> PageID \<Rightarrow> process \<Rightarrow> (page_ptr option \<times> ConfigurableCache \<times> process) option" where
  "fetch_page c i m =
     do {
       sid \<leftarrow> find_section_for_page Unlocked c i;
       s \<leftarrow> map_of (sections c) sid;
       (r, s1) \<leftarrow> fetch_page_sec s i;
       (case r of
          Some a \<Rightarrow> Some (Some a, put_section sid s1 c, m)
        | None \<Rightarrow> do {
            (r2, s2, m2) \<leftarrow> new_page_sec s1 i m;
            Some (r2, put_section sid s2 c, m2)
          })
     }"

text \<open>\<^verbatim>\<open>pin_page\<close>, \<^verbatim>\<open>unpin_page\<close>, \<^verbatim>\<open>flush_page\<close>: nothing for a null pointer; otherwise
  the section is looked up from \<^verbatim>\<open>page->get_id()\<close> and acts on the page.\<close>

definition through_page ::
  "(Page \<Rightarrow> Page) \<Rightarrow> ConfigurableCache \<Rightarrow> page_ptr option \<Rightarrow> ConfigurableCache option" where
  "through_page f c pg =
     (case pg of
        None \<Rightarrow> Some c
      | Some a \<Rightarrow> do {
          p \<leftarrow> deref c a;
          sid \<leftarrow> find_section_for_page Unlocked c (id_page p);
          Some (on_page a f c)
        })"

definition pin_page :: "ConfigurableCache \<Rightarrow> page_ptr option \<Rightarrow> ConfigurableCache option" where
  "pin_page c pg = through_page pin_page_sec c pg"

definition unpin_page :: "ConfigurableCache \<Rightarrow> page_ptr option \<Rightarrow> bool \<Rightarrow> ConfigurableCache option" where
  "unpin_page c pg d = through_page (unpin_page_sec d) c pg"

definition flush_page :: "ConfigurableCache \<Rightarrow> page_ptr option \<Rightarrow> ConfigurableCache option" where
  "flush_page c pg = through_page flush_page_sec c pg"

definition size_cache :: "ConfigurableCache \<Rightarrow> size_t" where
  "size_cache c = foldl (\<lambda>total (k, s). total + page_count s) 0 (sections c)"

definition reset_all_stats :: "ConfigurableCache \<Rightarrow> ConfigurableCache" where
  "reset_all_stats c = c\<lparr>sections := map (\<lambda>(k, s). (k, reset_stats s)) (sections c)\<rparr>"

definition resize_section :: "ConfigurableCache \<Rightarrow> size_t \<Rightarrow> size_t \<Rightarrow> ConfigurableCache option" where
  "resize_section c sid new_size =
     (case map_of (sections c) sid of
        None \<Rightarrow> Some c
      | Some s \<Rightarrow>
          let old_size = size_sec s;
              new_size' = (if new_size > old_size \<and> new_size - old_size > available_size c
                           then old_size + available_size c else new_size);
              avail = (if new_size > old_size then available_size c - (new_size' - old_size)
                       else available_size c + (old_size - new_size))
          in do {
            s' \<leftarrow> resize s new_size';
            Some (put_section sid s' (c\<lparr>available_size := avail\<rparr>))
          })"

definition map_page_to_section :: "ConfigurableCache \<Rightarrow> PageID \<Rightarrow> size_t \<Rightarrow> ConfigurableCache" where
  "map_page_to_section c i sid =
     (if \<not> has_section c sid then c
      else c\<lparr>page_to_section_map := (page_to_section_map c)(i \<mapsto> sid)\<rparr>)"

definition erase_at :: "nat \<Rightarrow> 'a list \<Rightarrow> 'a list option" where
  "erase_at k xs = (if k < length xs then Some (take k xs @ drop (Suc k) xs) else None)"

text \<open>The loop of \<^verbatim>\<open>map_page_range_to_section\<close> that erases every range overlapping
  \<^verbatim>\<open>[start, end]\<close> from both vectors; after an erasure the index stays where it is.\<close>

function erase_overlaps ::
  "nat \<Rightarrow> PageID \<Rightarrow> PageID \<Rightarrow> (PageID \<times> PageID) list \<Rightarrow> size_t list \<Rightarrow>
   ((PageID \<times> PageID) list \<times> size_t list) option" where
  "erase_overlaps k start_id end_id rs ids =
     (if k < length rs then
        (if \<not> (snd (rs ! k) < start_id \<or> fst (rs ! k) > end_id) then
           (case erase_at k ids of
              None \<Rightarrow> None
            | Some ids' \<Rightarrow> erase_overlaps k start_id end_id (take k rs @ drop (Suc k) rs) ids')
         else erase_overlaps (Suc k) start_id end_id rs ids)
      else Some (rs, ids))"
  by pat_completeness auto
termination
  by (relation "measure (\<lambda>(k, start_id, end_id, rs, ids). length rs - k)") auto

declare erase_overlaps.simps [simp del]

definition map_page_range_to_section ::
  "ConfigurableCache \<Rightarrow> PageID \<Rightarrow> PageID \<Rightarrow> size_t \<Rightarrow> ConfigurableCache option" where
  "map_page_range_to_section c start_id end_id sid =
     (if \<not> has_section c sid then Some c
      else do {
        (rs, ids) \<leftarrow> erase_overlaps 0 start_id end_id (page_ranges c) (range_section_ids c);
        Some (c\<lparr>page_ranges := rs @ [(start_id, end_id)], range_section_ids := ids @ [sid]\<rparr>)
      })"

text \<open>The loop of \<^verbatim>\<open>remove_section\<close> over the range mappings.\<close>

function erase_section_ranges ::
  "nat \<Rightarrow> size_t \<Rightarrow> (PageID \<times> PageID) list \<Rightarrow> size_t list \<Rightarrow>
   ((PageID \<times> PageID) list \<times> size_t list) option" where
  "erase_section_ranges k sid rs ids =
     (if k < length rs then
        (case elem_at ids k of
           None \<Rightarrow> None
         | Some x \<Rightarrow>
             if x = sid then
               erase_section_ranges k sid (take k rs @ drop (Suc k) rs) (take k ids @ drop (Suc k) ids)
             else erase_section_ranges (Suc k) sid rs ids)
      else Some (rs, ids))"
  by pat_completeness auto
termination
  by (relation "measure (\<lambda>(k, sid, rs, ids). length rs - k)") auto

declare erase_section_ranges.simps [simp del]

definition remove_section :: "ConfigurableCache \<Rightarrow> size_t \<Rightarrow> ConfigurableCache option" where
  "remove_section c sid =
     (if sid = default_section_id c then Some c
      else
        (case map_of (sections c) sid of
           None \<Rightarrow> Some c
         | Some s \<Rightarrow> do {
             (rs, ids) \<leftarrow> erase_section_ranges 0 sid (page_ranges c) (range_section_ids c);
             Some (c\<lparr>available_size := available_size c + size_sec s,
                     sections := AList.delete sid (sections c),
                     page_to_section_map :=
                       (\<lambda>i. case page_to_section_map c i of
                              Some x \<Rightarrow> if x = sid then None else Some x
                            | None \<Rightarrow> None),
                     page_ranges := rs, range_section_ids := ids\<rparr>)
           }))"

text \<open>\<^verbatim>\<open>flush_all_pages\<close>: every valid entry with a dirty page is marked clean.\<close>

definition flush_entry :: "CacheEntry \<Rightarrow> CacheEntry" where
  "flush_entry e =
     (case page e of
        Some (a, p) \<Rightarrow> (if valid e \<and> is_dirty p then e\<lparr>page := Some (a, flush_page_sec p)\<rparr> else e)
      | None \<Rightarrow> e)"

definition flush_all_pages_sec :: "CacheSection \<Rightarrow> CacheSection" where
  "flush_all_pages_sec s =
     (if set_based (structure_sec s) then s\<lparr>sets := map (map flush_entry) (sets s)\<rparr>
      else s\<lparr>pages := map (\<lambda>(n, e). (n, flush_entry e)) (pages s)\<rparr>)"

definition flush_all_pages :: "ConfigurableCache \<Rightarrow> ConfigurableCache" where
  "flush_all_pages c = c\<lparr>sections := map (\<lambda>(k, s). (k, flush_all_pages_sec s)) (sections c)\<rparr>"

text \<open>
  \<^verbatim>\<open>CacheSection::prefetch_page\<close>: nothing if the identifier is already there; otherwise
  a page for it is put into a free slot or replaces a victim, without touching the
  statistics. The set-based path reads \<^verbatim>\<open>victim.page->is_dirty()\<close> without a null check,
  and the fully-associative path takes \<^verbatim>\<open>std::prev(pages.end())\<close> even if the list is
  empty (a section of capacity 0); the victim's page is destroyed when the new page is
  stored, so marking it clean first leaves no trace.
\<close>

definition prefetch_page_sec ::
  "CacheSection \<Rightarrow> PageID \<Rightarrow> process \<Rightarrow> (CacheSection \<times> process) option" where
  "prefetch_page_sec s i m =
     (if set_based (structure_sec s) then do {
        set_idx \<leftarrow> get_set_index s i;
        st \<leftarrow> elem_at (sets s) set_idx;
        if find_first (\<lambda>e. valid e \<and> id_entry e = i) st \<noteq> None then Some (s, m)
        else
          (case find_first (\<lambda>e. \<not> valid e) st of
             Some k \<Rightarrow>
               let (pg, m1) = make_page i (line_size s) m;
                   e = (st ! k)\<lparr>page := Some pg, id_entry := i, valid := True\<rparr>
               in Some (s\<lparr>sets := (sets s)[set_idx := st[k := e]]\<rparr>, m1)
           | None \<Rightarrow> do {
               (victim_idx, s1, m1) \<leftarrow> find_victim_in_set s set_idx m;
               st1 \<leftarrow> elem_at (sets s1) set_idx;
               victim \<leftarrow> elem_at st1 victim_idx;
               old \<leftarrow> page victim;
               (let (pg, m2) = make_page i (line_size s1) m1;
                    e = victim\<lparr>page := Some pg, id_entry := i, valid := True,
                               referenced := False\<rparr>
                in Some (s1\<lparr>sets := (sets s1)[set_idx := st1[victim_idx := e]]\<rparr>, m2))
             })
      }
      else
        (case page_map s i of
           Some n \<Rightarrow> Some (s, m)
         | None \<Rightarrow>
             if of_nat (length (pages s)) < pages_capacity s then
               (case emplace_front_page s i m of (r, s', m') \<Rightarrow> Some (s', m'))
             else if pages s = [] then None
             else
               let (n, victim) = last (pages s);
                   pm = (page_map s)(id_entry victim := None);
                   (pg, m1) = make_page i (line_size s) m;
                   e = victim\<lparr>page := Some pg, id_entry := i, valid := True\<rparr>
               in Some (s\<lparr>pages := (n, e) # butlast (pages s), page_map := pm(i \<mapsto> n)\<rparr>, m1)))"

text \<open>
  \<^verbatim>\<open>ConfigurableCache::prefetch_page\<close>. \<^verbatim>\<open>prefetch_pages\<close> groups the identifiers by
  section and runs \<^verbatim>\<open>CacheSection::prefetch_page\<close> for each identifier of each group
  whose section exists, the groups in the iteration order of an \<^verbatim>\<open>unordered_map\<close>: a
  series of prefetches, each into a section of the cache.
\<close>

definition prefetch_page ::
  "ConfigurableCache \<Rightarrow> PageID \<Rightarrow> process \<Rightarrow> (ConfigurableCache \<times> process) option" where
  "prefetch_page c i m =
     do {
       sid \<leftarrow> find_section_for_page Unlocked c i;
       s \<leftarrow> map_of (sections c) sid;
       (s', m') \<leftarrow> prefetch_page_sec s i m;
       Some (put_section sid s' c, m')
     }"

section \<open>SimplifiedConfigurableCache\<close>

text \<open>
  The header \<^verbatim>\<open>simplified_configurable_cache.h\<close> is there in two versions, and each
  defines \<^verbatim>\<open>SimplifiedConfigurableCache::evictPage\<close>. Both versions keep the pages in
  \<^verbatim>\<open>std::unordered_map<PageID, std::unique_ptr<Page>> page_map\<close> and the LRU order in
  \<^verbatim>\<open>std::vector<PageID> lru_list\<close>, most recently used first. Only the fields that
  \<^verbatim>\<open>evictPage\<close> reads or writes are modelled. Both functions walk \<^verbatim>\<open>lru_list\<close> from the
  back; \<open>evict_scan_first k\<close> and \<open>evict_scan_second k\<close> are the walks with \<open>k\<close>
  positions left to look at.
\<close>

record SimplifiedConfigurableCache =
  capacity :: size_t
  page_map_s :: "(PageID \<times> page_ptr \<times> Page) list"
  lru_list :: "PageID list"

text \<open>
  The first \<^verbatim>\<open>evictPage\<close> (lines 508 to 619 of the file, with the debug output left
  out). An identifier that is not in \<^verbatim>\<open>page_map\<close> is erased from the vector inside the
  loop; that invalidates the reverse iterator, which the loop goes on to increment:
  \<open>None\<close>. Otherwise \<^verbatim>\<open>pin_count = page->pin(); page->unpin(); pin_count--;\<close> leaves the
  page's count as it was and the local \<^verbatim>\<open>int\<close> at the count before minus one (an
  overflow if the count is the least \<^verbatim>\<open>int\<close>). If the local is at most 0 the page is
  erased from the map, the identifier from the list, and the function returns. When
  the walk ends without that, \<^verbatim>\<open>capacity++\<close>.
\<close>

fun evict_scan_first ::
  "nat \<Rightarrow> SimplifiedConfigurableCache \<Rightarrow> SimplifiedConfigurableCache option" where
  "evict_scan_first 0 c = Some (c\<lparr>capacity := capacity c + 1\<rparr>)"
| "evict_scan_first (Suc k) c =
     (let i = lru_list c ! k in
      case map_of (page_map_s c) i of
        None \<Rightarrow> None
      | Some (a, p) \<Rightarrow>
          let (old, p1) = pin p;
              (x, p2) = unpin p1
          in if sint old = - (2 ^ 31) then None
             else if sint old - 1 \<le> 0 then
               Some (c\<lparr>page_map_s := AList.delete i (page_map_s c),
                       lru_list := take k (lru_list c) @ drop (Suc k) (lru_list c)\<rparr>)
             else evict_scan_first k (c\<lparr>page_map_s := AList.update i (a, p2) (page_map_s c)\<rparr>))"

definition evictPage_first :: "SimplifiedConfigurableCache \<Rightarrow> SimplifiedConfigurableCache option" where
  "evictPage_first c = evict_scan_first (length (lru_list c)) c"

text \<open>
  The second \<^verbatim>\<open>evictPage\<close> (lines 927 to 952 of the file, the one that tests
  \<^verbatim>\<open>unpin() <= 0\<close>). An identifier that is not in \<^verbatim>\<open>page_map\<close> is skipped. Otherwise
  \<^verbatim>\<open>unpin()\<close> is called on the page, which decrements its pin count and returns the value
  before; if that value is at most 0 the page is erased from the map, the identifier is
  erased from the list at that position, and the function returns; if not, the page
  stays, with the decremented count, and the walk goes on. Nothing happens when the
  walk ends.
\<close>

fun evict_scan_second :: "nat \<Rightarrow> SimplifiedConfigurableCache \<Rightarrow> SimplifiedConfigurableCache" where
  "evict_scan_second 0 c = c"
| "evict_scan_second (Suc k) c =
     (let i = lru_list c ! k in
      case map_of (page_map_s c) i of
        None \<Rightarrow> evict_scan_second k c
      | Some (a, p) \<Rightarrow>
          let (old, p') = unpin p in
          if sint old \<le> 0 then
            c\<lparr>page_map_s := AList.delete i (page_map_s c),
              lru_list := take k (lru_list c) @ drop (Suc k) (lru_list c)\<rparr>
          else evict_scan_second k (c\<lparr>page_map_s := AList.update i (a, p') (page_map_s c)\<rparr>))"

definition evictPage_second :: "SimplifiedConfigurableCache \<Rightarrow> SimplifiedConfigurableCache" where
  "evictPage_second c = evict_scan_second (length (lru_list c)) c"

section \<open>Reachable states\<close>

text \<open>
  The states a \<^verbatim>\<open>ConfigurableCache\<close> goes through: built by the constructor, then changed
  by the calls of its public interface that return. The process state of a new cache
  is arbitrary: other caches may have run before.

  The rule for prefetching covers \<^verbatim>\<open>prefetch_page\<close> and every step of \<^verbatim>\<open>prefetch_pages\<close>,
  which groups the identifiers by section and runs \<^verbatim>\<open>CacheSection::prefetch_page\<close> for
  each identifier of each group whose section exists, the groups in the iteration
  order of an \<^verbatim>\<open>unordered_map\<close>. The rule for \<^verbatim>\<open>resize_section\<close> covers every step of
  \<^verbatim>\<open>optimize_section_sizes\<close>, which changes the cache only through calls of
  \<^verbatim>\<open>resize_section\<close>, made after it has released its lock; the sizes it passes come
  from arithmetic in \<^verbatim>\<open>double\<close> and may be any.

  Two calls stop at a lock they cannot get: \<^verbatim>\<open>CacheSection::fetch_page\<close> on a miss, and
  \<^verbatim>\<open>ConfigurableCache::new_page\<close>, which has advanced the page counter by then. The code
  behind the two locks is code of the program all the same, and the last three rules
  are its steps: the page counter advanced, a miss counted in a section, and
  \<^verbatim>\<open>CacheSection::new_page\<close> on a section (the pin that follows it in
  \<^verbatim>\<open>ConfigurableCache::new_page\<close> is a step of \<^verbatim>\<open>pin_page\<close>). What is proved of every
  reachable state therefore holds of the states the calls reach as they are written,
  and goes on to hold where the two locks are granted.
\<close>

inductive reachable :: "ConfigurableCache \<Rightarrow> process \<Rightarrow> bool" where
  constructed: "ConfigurableCache_new tsz psz default_line_size = Some c \<Longrightarrow> reachable c m"
| after_new_page: "reachable c m \<Longrightarrow> new_page c m = Some (r, c', m') \<Longrightarrow> reachable c' m'"
| after_fetch_page: "reachable c m \<Longrightarrow> fetch_page c i m = Some (r, c', m') \<Longrightarrow> reachable c' m'"
| after_pin_page: "reachable c m \<Longrightarrow> pin_page c pg = Some c' \<Longrightarrow> reachable c' m"
| after_unpin_page: "reachable c m \<Longrightarrow> unpin_page c pg d = Some c' \<Longrightarrow> reachable c' m"
| after_flush_page: "reachable c m \<Longrightarrow> flush_page c pg = Some c' \<Longrightarrow> reachable c' m"
| after_flush_all_pages: "reachable c m \<Longrightarrow> reachable (flush_all_pages c) m"
| after_prefetch:
    "reachable c m \<Longrightarrow> map_of (sections c) sid = Some s \<Longrightarrow>
     prefetch_page_sec s i m = Some (s', m') \<Longrightarrow> reachable (put_section sid s' c) m'"
| after_create_section:
    "reachable c m \<Longrightarrow> create_section c sz ls st assoc = Some (sid, c') \<Longrightarrow> reachable c' m"
| after_remove_section: "reachable c m \<Longrightarrow> remove_section c sid = Some c' \<Longrightarrow> reachable c' m"
| after_resize_section:
    "reachable c m \<Longrightarrow> resize_section c sid new_size = Some c' \<Longrightarrow> reachable c' m"
| after_map_page_to_section: "reachable c m \<Longrightarrow> reachable (map_page_to_section c i sid) m"
| after_map_page_range_to_section:
    "reachable c m \<Longrightarrow> map_page_range_to_section c start_id end_id sid = Some c' \<Longrightarrow>
     reachable c' m"
| after_reset_all_stats: "reachable c m \<Longrightarrow> reachable (reset_all_stats c) m"
| page_counter_advanced:
    "reachable c m \<Longrightarrow>
     reachable (c\<lparr>next_page_id := (if next_page_id c = 0 then 1 else next_page_id c) + 1\<rparr>) m"
| miss_counted:
    "reachable c m \<Longrightarrow> map_of (sections c) sid = Some s \<Longrightarrow>
     reachable (put_section sid (s\<lparr>stats := count_miss (stats s)\<rparr>) c) m"
| section_new_page:
    "reachable c m \<Longrightarrow> map_of (sections c) sid = Some s \<Longrightarrow>
     new_page_sec s i m = Some (r, s', m') \<Longrightarrow> reachable (put_section sid s' c) m'"

text \<open>What the operations rely on: no division by zero, the set table has
  \<^verbatim>\<open>num_sets\<close> sets of \<^verbatim>\<open>associativity\<close> entries, and every iterator in \<^verbatim>\<open>page_map\<close>
  points into \<^verbatim>\<open>pages\<close>.\<close>

definition section_wf :: "CacheSection \<Rightarrow> bool" where
  "section_wf s =
     (line_size s * associativity s \<noteq> 0 \<and>
      (if set_based (structure_sec s) then
         num_sets s \<noteq> 0 \<and> length (sets s) = unat (num_sets s) \<and>
         list_all (\<lambda>st. length st = unat (associativity s)) (sets s)
       else ran (page_map s) \<subseteq> fst ` set (pages s)))"

definition all_sections :: "(CacheSection \<Rightarrow> bool) \<Rightarrow> ConfigurableCache \<Rightarrow> bool" where
  "all_sections P c = list_all (\<lambda>(k, s). P s) (sections c)"

definition routing_wf :: "ConfigurableCache \<Rightarrow> bool" where
  "routing_wf c =
     (has_section c (default_section_id c) \<and>
      length (range_section_ids c) = length (page_ranges c))"

definition stats_consistent :: "CacheSection \<Rightarrow> bool" where
  "stats_consistent s = (accesses (stats s) = hits (stats s) + misses (stats s))"

section \<open>Scenarios\<close>

text \<open>\<^verbatim>\<open>fetch_page\<close>, and \<^verbatim>\<open>prefetch_page\<close>, called for each identifier of a list in turn.\<close>

fun fetch_pages ::
  "PageID list \<Rightarrow> ConfigurableCache \<Rightarrow> process \<Rightarrow> (ConfigurableCache \<times> process) option" where
  "fetch_pages [] c m = Some (c, m)"
| "fetch_pages (i # is) c m = do { (r, c', m') \<leftarrow> fetch_page c i m; fetch_pages is c' m' }"

fun prefetch_each ::
  "PageID list \<Rightarrow> ConfigurableCache \<Rightarrow> process \<Rightarrow> (ConfigurableCache \<times> process) option" where
  "prefetch_each [] c m = Some (c, m)"
| "prefetch_each (i # is) c m = do { (c', m') \<leftarrow> prefetch_page c i m; prefetch_each is c' m' }"

text \<open>A cache of three lines of 4096 bytes, whose only section is the fully-associative
  default section; identifiers 1, 2, 3, 4 and then 2 are fetched.\<close>

definition lru_scenario :: "CacheSection option" where
  "lru_scenario = do {
     c \<leftarrow> ConfigurableCache_new 12288 4096 4096;
     (c', m') \<leftarrow> fetch_pages [1, 2, 3, 4, 2] c process_start;
     map_of (sections c') (default_section_id c')
   }"

text \<open>The same cache; identifiers 1, 2, 3, 4 are prefetched, then 2 is fetched. The
  result is the default section before the fetch, the pointer the fetch returns, and
  the cache and the default section after it.\<close>

definition lru_prefetch_scenario ::
  "(CacheSection \<times> page_ptr option \<times> ConfigurableCache \<times> CacheSection) option" where
  "lru_prefetch_scenario = do {
     c \<leftarrow> ConfigurableCache_new 12288 4096 4096;
     (c1, m1) \<leftarrow> prefetch_each [1, 2, 3, 4] c process_start;
     s1 \<leftarrow> map_of (sections c1) (default_section_id c1);
     (r, c2, m2) \<leftarrow> fetch_page c1 2 m1;
     s2 \<leftarrow> map_of (sections c2) (default_section_id c2);
     Some (s1, r, c2, s2)
   }"

text \<open>Sections A (direct-mapped) and B (fully-associative) are created, then
  \<^verbatim>\<open>map_page_range_to_section(1, 100, A)\<close> and \<^verbatim>\<open>map_page_range_to_section(50, 150, B)\<close>.\<close>

definition range_scenario :: "(size_t \<times> size_t \<times> ConfigurableCache) option" where
  "range_scenario = do {
     c \<leftarrow> ConfigurableCache_new 1048576 4096 4096;
     (a, c1) \<leftarrow> create_section c 262144 4096 DirectMapped 8;
     (b, c2) \<leftarrow> create_section c1 262144 4096 FullyAssociative 8;
     c3 \<leftarrow> map_page_range_to_section c2 1 100 a;
     c4 \<leftarrow> map_page_range_to_section c3 50 150 b;
     Some (a, b, c4)
   }"

text \<open>
  A fully-associative \<^verbatim>\<open>CacheSection\<close> of one line: \<^verbatim>\<open>new_page(1, lock)\<close>, \<^verbatim>\<open>pin_page\<close> on
  the page it returns, and \<^verbatim>\<open>new_page(2, lock)\<close>. The result is the section before the
  second \<^verbatim>\<open>new_page\<close>, the pointer to page 1, what the second \<^verbatim>\<open>new_page\<close> returns, and
  the section after it.
\<close>

definition pinned_scenario ::
  "(CacheSection \<times> page_ptr \<times> page_ptr option \<times> CacheSection) option" where
  "pinned_scenario = do {
     s0 \<leftarrow> CacheSection_new 0 4096 4096 FullyAssociative 8;
     (r1, s1, m1) \<leftarrow> new_page_sec s0 1 process_start;
     a1 \<leftarrow> r1;
     let s2 = on_section_page a1 pin_page_sec s1;
     (r2, s3, m3) \<leftarrow> new_page_sec s2 2 m1;
     Some (s2, a1, r2, s3)
   }"

text \<open>A cache of one line: \<^verbatim>\<open>prefetch_page(5)\<close>, then \<^verbatim>\<open>fetch_page(5, lock)\<close>. The result is
  the pointer the fetch returns and the cache before and after the fetch.\<close>

definition refetch_scenario ::
  "(page_ptr \<times> ConfigurableCache \<times> ConfigurableCache) option" where
  "refetch_scenario = do {
     c \<leftarrow> ConfigurableCache_new 4096 4096 4096;
     (c1, m1) \<leftarrow> prefetch_page c 5 process_start;
     (r, c2, m2) \<leftarrow> fetch_page c1 5 m1;
     a \<leftarrow> r;
     Some (a, c1, c2)
   }"

text \<open>The state of the cache and of the process after those two calls.\<close>

definition refetch_scenario_state :: "(ConfigurableCache \<times> process) option" where
  "refetch_scenario_state = do {
     c \<leftarrow> ConfigurableCache_new 4096 4096 4096;
     (c1, m1) \<leftarrow> prefetch_page c 5 process_start;
     (r, c2, m2) \<leftarrow> fetch_page c1 5 m1;
     Some (c2, m2)
   }"

text \<open>\<^verbatim>\<open>prefetch_page(5)\<close>, \<^verbatim>\<open>fetch_page(5, lock)\<close>, then \<^verbatim>\<open>unpin_page(page, false, lock)\<close> twice
  on the page the fetch returned. The result is that page.\<close>

definition unpin_scenario :: "Page option" where
  "unpin_scenario = do {
     c \<leftarrow> ConfigurableCache_new 4096 4096 4096;
     (c1, m1) \<leftarrow> prefetch_page c 5 process_start;
     (r, c2, m2) \<leftarrow> fetch_page c1 5 m1;
     c3 \<leftarrow> unpin_page c2 r False;
     c4 \<leftarrow> unpin_page c3 r False;
     a \<leftarrow> r;
     deref c4 a
   }"

text \<open>A \<^verbatim>\<open>CacheSection\<close> used on its own: \<^verbatim>\<open>new_page(1, lock)\<close>, then
  \<^verbatim>\<open>unpin_page(page, false, lock)\<close> on the page it returned. The result is the pages the
  section owns.\<close>

definition section_unpin_scenario :: "(page_ptr \<times> Page) list option" where
  "section_unpin_scenario = do {
     s0 \<leftarrow> CacheSection_new 0 4096 4096 FullyAssociative 8;
     (r1, s1, m1) \<leftarrow> new_page_sec s0 1 process_start;
     a1 \<leftarrow> r1;
     Some (owned_pages (on_section_page a1 (unpin_page_sec False) s1))
   }"

text \<open>Two pages are prefetched into a section of three lines, which is then resized
  to two lines. The result is the section before and after the resize.\<close>

definition resize_scenario :: "(CacheSection \<times> CacheSection) option" where
  "resize_scenario = do {
     c \<leftarrow> ConfigurableCache_new 12288 4096 4096;
     (c1, m1) \<leftarrow> prefetch_each [1, 2] c process_start;
     c2 \<leftarrow> resize_section c1 (default_section_id c1) 8192;
     s1 \<leftarrow> map_of (sections c1) (default_section_id c1);
     s2 \<leftarrow> map_of (sections c2) (default_section_id c2);
     Some (s1, s2)
   }"

text \<open>Two pages, page 1 pinned once and least recently used, page 2 not pinned.\<close>

definition evict_scenario :: SimplifiedConfigurableCache where
  "evict_scenario =
     \<lparr>capacity = 2,
      page_map_s = [(1, (0, snd (pin (Page_new 1 4096)))), (2, (1, Page_new 2 4096))],
      lru_list = [2, 1]\<rparr>"

section \<open>Evaluation\<close>

lemmas lock_defs = lock_shared_def lock_unique_def unlock_def

lemmas section_defs =
  CacheSection_new_def set_based_def fresh_sets_def get_set_index_def elem_at_def
  fetch_page_sec_def new_page_sec_def allocate_page_def emplace_front_page_def make_page_def
  find_victim_in_set_def clock_scan.simps clean_victim_def count_miss_def count_hit_def CacheSectionStats_new_def
  splice_front_def is_dirty_def set_dirty_def Page_new_def CacheEntry_new_def
  pin_page_sec_def unpin_page_sec_def flush_page_sec_def pin_def unpin_def
  lru_order_def owned_pages_def entries_def on_entry_page_def on_section_page_def
  page_count_def resize_def reset_stats_def prefetch_page_sec_def List.map_filter_def
  lock_defs

lemmas cache_defs =
  ConfigurableCache_new_def create_section_def has_section_def in_range_def
  get_section_for_page_def find_section_for_page_def default_or_first_def put_section_def
  deref_def on_page_def new_page_def fetch_page_def through_page_def pin_page_def unpin_page_def
  flush_page_def size_cache_def resize_section_def map_page_to_section_def prefetch_page_def
  map_page_range_to_section_def erase_overlaps.simps erase_at_def process_start_def

section \<open>Lemmas\<close>

lemma count_hit_consistent:
  "accesses st = hits st + misses st \<Longrightarrow>
   accesses (count_hit st) = hits (count_hit st) + misses (count_hit st)"
  by (simp add: count_hit_def)

lemma count_miss_consistent:
  "accesses st = hits st + misses st \<Longrightarrow>
   accesses (count_miss st) = hits (count_miss st) + misses (count_miss st)"
  by (simp add: count_miss_def)

lemma fetch_page_sec_stats:
  assumes "fetch_page_sec s i = Some (r, s')"
  shows "stats s' = stats s \<or> stats s' = count_hit (stats s) \<or> stats s' = count_miss (stats s)"
  using assms
  by (auto simp: fetch_page_sec_def lock_defs split: if_splits option.splits Option.bind_splits)

lemma find_victim_in_set_stats:
  "find_victim_in_set s k m = Some (v, s', m') \<Longrightarrow> stats s' = stats s"
  by (auto simp: find_victim_in_set_def Let_def split: if_splits Option.bind_splits)

lemma allocate_page_stats:
  assumes "allocate_page s i m = Some (r, s', m')"
  shows "stats s' = stats s"
  using assms
  by (auto simp: allocate_page_def emplace_front_page_def make_page_def Let_def
      dest!: find_victim_in_set_stats
      split: if_splits option.splits Option.bind_splits prod.splits)

lemma new_page_sec_stats:
  "new_page_sec s i m = Some (r, s', m') \<Longrightarrow> stats s' = count_miss (stats s)"
  by (auto simp: new_page_sec_def dest!: allocate_page_stats)

lemma resize_stats: "resize s n = Some s' \<Longrightarrow> stats s' = stats s"
  by (auto simp: resize_def Let_def split: if_splits)

lemma on_section_page_stats: "stats (on_section_page a f s) = stats s"
  by (simp add: on_section_page_def)

lemma flush_all_pages_sec_stats: "stats (flush_all_pages_sec s) = stats s"
  by (simp add: flush_all_pages_sec_def)

lemma list_all_update:
  "list_all (\<lambda>(k, s). P s) al \<Longrightarrow> P v \<Longrightarrow> list_all (\<lambda>(k, s). P s) (AList.update k v al)"
  by (induction al) auto

lemma list_all_delete:
  "list_all (\<lambda>(k, s). P s) al \<Longrightarrow> list_all (\<lambda>(k, s). P s) (AList.delete k al)"
  by (induction al) auto

lemma all_sections_put:
  "all_sections P c \<Longrightarrow> P s \<Longrightarrow> all_sections P (put_section sid s c)"
  by (simp add: all_sections_def put_section_def list_all_update)

lemma all_sections_lookup:
  "all_sections P c \<Longrightarrow> map_of (sections c) sid = Some s \<Longrightarrow> P s"
  by (auto simp: all_sections_def list_all_iff dest!: map_of_SomeD)

lemma all_sections_map:
  "(\<And>s. P s \<Longrightarrow> P (f s)) \<Longrightarrow> all_sections P c \<Longrightarrow>
   all_sections P (c\<lparr>sections := map (\<lambda>(k, s). (k, f s)) (sections c)\<rparr>)"
  by (auto simp: all_sections_def list_all_iff)

lemma all_sections_on_page:
  "(\<And>s. P s \<Longrightarrow> P (on_section_page a f s)) \<Longrightarrow> all_sections P c \<Longrightarrow>
   all_sections P (on_page a f c)"
  unfolding on_page_def by (rule all_sections_map)

lemma fetch_page_all_sections:
  assumes fetch: "\<And>s i r s'. P s \<Longrightarrow> fetch_page_sec s i = Some (r, s') \<Longrightarrow> P s'"
    and newp: "\<And>s i m r s' m'. P s \<Longrightarrow> new_page_sec s i m = Some (r, s', m') \<Longrightarrow> P s'"
    and c: "all_sections P c"
    and run: "fetch_page c i m = Some (r, c', m')"
  shows "all_sections P c'"
proof -
  from run obtain sid s r1 s1 where
    s: "map_of (sections c) sid = Some s" and
    f: "fetch_page_sec s i = Some (r1, s1)" and
    rest: "(case r1 of Some a \<Rightarrow> Some (Some a, put_section sid s1 c, m)
            | None \<Rightarrow> do { (r2, s2, m2) \<leftarrow> new_page_sec s1 i m; Some (r2, put_section sid s2 c, m2) })
           = Some (r, c', m')"
    by (auto simp: fetch_page_def split: Option.bind_splits)
  have s1: "P s1"
    using fetch [OF all_sections_lookup [OF c s] f] .
  show ?thesis
  proof (cases r1)
    case (Some a)
    with rest have "c' = put_section sid s1 c" by simp
    then show ?thesis using c s1 by (simp add: all_sections_put)
  next
    case None
    with rest obtain s2 where n: "new_page_sec s1 i m = Some (r, s2, m')" and c': "c' = put_section sid s2 c"
      by (auto split: Option.bind_splits)
    have "P s2" using newp [OF s1 n] .
    then show ?thesis using c c' by (simp add: all_sections_put)
  qed
qed

lemma through_page_all_sections:
  assumes onp: "\<And>s a f. P s \<Longrightarrow> P (on_section_page a f s)"
    and c: "all_sections P c"
    and run: "through_page f c pg = Some c'"
  shows "all_sections P c'"
  using run c
  by (auto simp: through_page_def intro: all_sections_on_page onp
      split: option.splits Option.bind_splits)

lemma create_section_all_sections:
  assumes new: "\<And>sid sz ls st assoc s. CacheSection_new sid sz ls st assoc = Some s \<Longrightarrow> P s"
    and c: "all_sections P c"
    and run: "create_section c sz ls st assoc = Some (sid, c')"
  shows "all_sections P c'"
  using run c
  by (auto simp: create_section_def Let_def all_sections_def intro!: list_all_update dest: new
      split: Option.bind_splits)

lemma remove_section_all_sections:
  assumes c: "all_sections P c" and run: "remove_section c sid = Some c'"
  shows "all_sections P c'"
  using run c
  by (auto simp: remove_section_def all_sections_def list_all_delete
      split: if_splits option.splits Option.bind_splits)

lemma resize_section_all_sections:
  assumes resize: "\<And>s n s'. P s \<Longrightarrow> resize s n = Some s' \<Longrightarrow> P s'"
    and c: "all_sections P c"
    and run: "resize_section c sid n = Some c'"
  shows "all_sections P c'"
proof (cases "map_of (sections c) sid")
  case None
  with run c show ?thesis by (simp add: resize_section_def)
next
  case (Some s)
  with run obtain n' av s' where r: "resize s n' = Some s'"
    and c': "c' = put_section sid s' (c\<lparr>available_size := av\<rparr>)"
    by (auto simp: resize_section_def Let_def split: Option.bind_splits)
  have "P s'" using resize [OF all_sections_lookup [OF c Some] r] .
  moreover have "all_sections P (c\<lparr>available_size := av\<rparr>)"
    using c by (simp add: all_sections_def)
  ultimately show ?thesis unfolding c' by (rule all_sections_put [rotated])
qed

lemma map_page_range_all_sections:
  "all_sections P c \<Longrightarrow> map_page_range_to_section c a b sid = Some c' \<Longrightarrow> all_sections P c'"
  by (auto simp: map_page_range_to_section_def all_sections_def split: if_splits Option.bind_splits)

lemma reachable_all_sections:
  assumes new: "\<And>sid sz ls st assoc s. CacheSection_new sid sz ls st assoc = Some s \<Longrightarrow> P s"
    and fetch: "\<And>s i r s'. P s \<Longrightarrow> fetch_page_sec s i = Some (r, s') \<Longrightarrow> P s'"
    and newp: "\<And>s i m r s' m'. P s \<Longrightarrow> new_page_sec s i m = Some (r, s', m') \<Longrightarrow> P s'"
    and onp: "\<And>s a f. P s \<Longrightarrow> P (on_section_page a f s)"
    and flush: "\<And>s. P s \<Longrightarrow> P (flush_all_pages_sec s)"
    and resize: "\<And>s n s'. P s \<Longrightarrow> resize s n = Some s' \<Longrightarrow> P s'"
    and reset: "\<And>s. P s \<Longrightarrow> P (reset_stats s)"
    and prefetch: "\<And>s i m s' m'. P s \<Longrightarrow> prefetch_page_sec s i m = Some (s', m') \<Longrightarrow> P s'"
    and miss: "\<And>s. P s \<Longrightarrow> P (s\<lparr>stats := count_miss (stats s)\<rparr>)"
    and r: "reachable c m"
  shows "all_sections P c"
  using r
proof (induction rule: reachable.induct)
  case (constructed tsz psz default_line_size c m)
  then show ?case
    by (auto simp: ConfigurableCache_new_def create_section_def Let_def all_sections_def
        dest: new split: Option.bind_splits)
next
  case (after_new_page c m r c' m')
  then show ?case by (simp add: new_page_def find_section_for_page_def lock_defs)
next
  case (after_fetch_page c m i r c' m')
  then show ?case using fetch_page_all_sections [where P = P] fetch newp by blast
next
  case (after_pin_page c m pg c')
  then show ?case
    unfolding pin_page_def using through_page_all_sections [where P = P] onp by blast
next
  case (after_unpin_page c m pg d c')
  then show ?case
    unfolding unpin_page_def using through_page_all_sections [where P = P] onp by blast
next
  case (after_flush_page c m pg c')
  then show ?case
    unfolding flush_page_def using through_page_all_sections [where P = P] onp by blast
next
  case (after_flush_all_pages c m)
  then show ?case
    unfolding flush_all_pages_def by (intro all_sections_map flush)
next
  case (after_prefetch c m sid s i s' m')
  have "P s'"
    using prefetch [OF all_sections_lookup [OF after_prefetch.IH after_prefetch.hyps(2)]
        after_prefetch.hyps(3)] .
  then show ?case using after_prefetch.IH by (simp add: all_sections_put)
next
  case (after_create_section c m sz ls st assoc sid c')
  then show ?case using create_section_all_sections [where P = P] new by blast
next
  case (after_remove_section c m sid c')
  then show ?case using remove_section_all_sections by blast
next
  case (after_resize_section c m sid new_size c')
  then show ?case using resize_section_all_sections [where P = P] resize by blast
next
  case (after_map_page_to_section c m i sid)
  then show ?case by (simp add: map_page_to_section_def all_sections_def)
next
  case (after_map_page_range_to_section c m start_id end_id sid c')
  then show ?case using map_page_range_all_sections by blast
next
  case (after_reset_all_stats c m)
  then show ?case
    unfolding reset_all_stats_def by (intro all_sections_map reset)
next
  case (page_counter_advanced c m)
  then show ?case by (simp add: all_sections_def)
next
  case (miss_counted c m sid s)
  have "P (s\<lparr>stats := count_miss (stats s)\<rparr>)"
    using miss [OF all_sections_lookup [OF miss_counted.IH miss_counted.hyps(2)]] .
  then show ?case using miss_counted.IH by (simp add: all_sections_put)
next
  case (section_new_page c m sid s i r s' m')
  have "P s'"
    using newp [OF all_sections_lookup [OF section_new_page.IH section_new_page.hyps(2)]
        section_new_page.hyps(3)] .
  then show ?case using section_new_page.IH by (simp add: all_sections_put)
qed

lemma clock_scan_length:
  "clock_scan assoc start pos st = Some (p, st') \<Longrightarrow> length st' = length st"
proof (induction assoc start pos st rule: clock_scan.induct)
  case (1 assoc start pos st)
  show ?case
  proof (cases "unat pos < length st \<and> referenced (st ! unat pos) \<and> (pos + 1) mod assoc \<noteq> start")
    case True
    then have "clock_scan assoc start ((pos + 1) mod assoc)
                 (st[unat pos := (st ! unat pos)\<lparr>referenced := False\<rparr>]) = Some (p, st')"
      using "1.prems" by (subst (asm) clock_scan.simps) (simp add: Let_def)
    from "1.IH" [OF _ _ refl refl _ this] True show ?thesis by simp
  next
    case False
    then show ?thesis
      using "1.prems" by (subst (asm) clock_scan.simps) (auto simp: Let_def split: if_splits)
  qed
qed

lemma word_mod_less: "(n :: 'a::len word) \<noteq> 0 \<Longrightarrow> x mod n < n"
  by (simp add: word_mod_less_divisor word_neq_0_conv)

lemma clock_scan_total:
  "assoc \<noteq> 0 \<Longrightarrow> length st = unat assoc \<Longrightarrow> pos < assoc \<Longrightarrow> start < assoc \<Longrightarrow>
   \<exists>p st'. clock_scan assoc start pos st = Some (p, st') \<and> p < assoc"
proof (induction assoc start pos st rule: clock_scan.induct)
  case (1 assoc start pos st)
  have inb: "unat pos < length st"
    using "1.prems" by (simp add: word_less_nat_alt)
  show ?case
  proof (cases "referenced (st ! unat pos)")
    case False
    then show ?thesis using inb "1.prems" by (subst clock_scan.simps) simp
  next
    case r: True
    show ?thesis
    proof (cases "(pos + 1) mod assoc = start")
      case True
      then show ?thesis using inb r "1.prems" by (subst clock_scan.simps) (simp add: Let_def)
    next
      case False
      have "\<exists>p st'. clock_scan assoc start ((pos + 1) mod assoc)
               (st[unat pos := (st ! unat pos)\<lparr>referenced := False\<rparr>]) = Some (p, st') \<and> p < assoc"
        using "1.IH" [OF _ _ refl refl False] inb r "1.prems" by (simp add: word_mod_less)
      then show ?thesis using inb r False by (subst clock_scan.simps) (simp add: Let_def)
    qed
  qed
qed

lemma get_set_index_inb:
  "num_sets s \<noteq> 0 \<Longrightarrow> length (sets s) = unat (num_sets s) \<Longrightarrow>
   \<exists>k. get_set_index s i = Some k \<and> k < length (sets s)"
  by (simp add: get_set_index_def word_mod_less word_less_nat_alt [symmetric])

lemma find_first_inb: "find_first P xs = Some k \<Longrightarrow> k < length xs \<and> P (xs ! k)"
proof (induction xs arbitrary: k)
  case Nil
  then show ?case by simp
next
  case (Cons x xs)
  then show ?case by (auto split: if_splits)
qed

lemma CacheSection_new_wf:
  "CacheSection_new sid sz ls st assoc = Some s \<Longrightarrow> section_wf s"
  by (auto simp: CacheSection_new_def section_wf_def fresh_sets_def Let_def list_all_iff
      split: if_splits)

lemma list_all_length_update:
  "list_all (\<lambda>st. length st = n) xs \<Longrightarrow> length y = n \<Longrightarrow> list_all (\<lambda>st. length st = n) (xs[k := y])"
  by (auto simp: list_all_iff dest!: set_update_subset_insert [THEN subsetD])

lemma list_all_nth_update:
  "list_all (\<lambda>st. length st = n) xs \<Longrightarrow> k < length xs \<Longrightarrow>
   list_all (\<lambda>st. length st = n) (xs[k := (xs ! k)[j := e]])"
  by (rule list_all_length_update) (auto simp: list_all_length)

lemma splice_front_keys:
  "splice_front n ps = Some ps' \<Longrightarrow> fst ` set ps' = fst ` set ps"
proof -
  assume a: "splice_front n ps = Some ps'"
  then obtain e where e: "map_of ps n = Some e" and ps': "ps' = (n, e) # AList.delete n ps"
    by (auto simp: splice_front_def split: option.splits)
  have "n \<in> fst ` set ps" using e by (force dest: map_of_SomeD)
  moreover have "fst ` set (AList.delete n ps) = fst ` set ps - {n}"
    by (force simp: AList.delete_eq)
  ultimately show ?thesis unfolding ps' by auto
qed

lemma fetch_page_sec_wf:
  assumes "section_wf s" and "fetch_page_sec s i = Some (r, s')"
  shows "section_wf s'"
proof (cases "set_based (structure_sec s)")
  case True
  with assms show ?thesis
    by (auto simp: fetch_page_sec_def lock_defs section_wf_def elem_at_def list_all_nth_update
        split: if_splits option.splits Option.bind_splits)
next
  case False
  with assms show ?thesis
    by (auto simp: fetch_page_sec_def lock_defs section_wf_def
        split: if_splits option.splits Option.bind_splits dest!: splice_front_keys)
qed

lemma find_victim_in_set_ok:
  assumes assoc: "associativity s \<noteq> 0"
    and k: "k < length (sets s)"
    and len: "length (sets s ! k) = unat (associativity s)"
  shows "\<exists>v st' ch. find_victim_in_set s k m =
           Some (v, s\<lparr>sets := (sets s)[k := st']\<rparr>, m\<lparr>clock_hand := ch\<rparr>) \<and>
         v < unat (associativity s) \<and> length st' = unat (associativity s)"
proof -
  let ?start = "clock_hand m mod associativity s"
  have start: "?start < associativity s" using assoc by (rule word_mod_less)
  obtain p st' where scan: "clock_scan (associativity s) ?start ?start (sets s ! k) = Some (p, st')"
    and p: "p < associativity s"
    using clock_scan_total [OF assoc len start start] by blast
  have "length st' = unat (associativity s)"
    using clock_scan_length [OF scan] len by simp
  moreover have "unat p < unat (associativity s)"
    using p by (simp add: word_less_nat_alt)
  moreover have "find_victim_in_set s k m =
      Some (unat p, s\<lparr>sets := (sets s)[k := st']\<rparr>,
            m\<lparr>clock_hand := (p + 1) mod associativity s\<rparr>)"
    using assoc k scan by (simp add: find_victim_in_set_def elem_at_def Let_def)
  ultimately show ?thesis by blast
qed

lemma owned_pages_sets_update:
  assumes "k < length xs" and "j < length (xs ! k)" and "page e = Some pg"
  shows "pg \<in> set (List.map_filter page (concat (xs[k := (xs ! k)[j := e]]) @ ys))"
proof -
  have "e \<in> set ((xs ! k)[j := e])" using assms by (simp add: set_update_memI)
  moreover have "(xs ! k)[j := e] \<in> set (xs[k := (xs ! k)[j := e]])"
    using assms by (simp add: set_update_memI)
  ultimately have "e \<in> set (concat (xs[k := (xs ! k)[j := e]]))" by auto
  then show ?thesis using assms(3) by (force simp: List.map_filter_def)
qed

lemma allocate_page_set_based:
  assumes wf: "section_wf s" and sb: "set_based (structure_sec s)"
  shows "\<exists>s' m'. allocate_page s i m = Some (Some (next_ptr m), s', m') \<and> section_wf s' \<and>
           line_size s' = line_size s \<and> structure_sec s' = structure_sec s \<and>
           (next_ptr m, Page_new i (line_size s)) \<in> set (owned_pages s')"
proof -
  from wf sb have ns: "num_sets s \<noteq> 0" and len: "length (sets s) = unat (num_sets s)"
    and all: "list_all (\<lambda>st. length st = unat (associativity s)) (sets s)"
    and la: "line_size s * associativity s \<noteq> 0"
    by (auto simp: section_wf_def)
  from la have assoc: "associativity s \<noteq> 0" by auto
  have ne: "sets s \<noteq> []" using ns len by (auto simp: unat_eq_zero)
  obtain k where k: "get_set_index s i = Some k" and kl: "k < length (sets s)"
    using get_set_index_inb [OF ns len] by blast
  have lk: "length (sets s ! k) = unat (associativity s)"
    using all kl by (simp add: list_all_length)
  show ?thesis
  proof (cases "find_first (\<lambda>e. \<not> valid e) (sets s ! k)")
    case (Some j)
    then have j: "j < length (sets s ! k)" by (auto dest: find_first_inb)
    let ?pg = "(next_ptr m, Page_new i (line_size s))"
    let ?e = "(sets s ! k ! j)\<lparr>page := Some ?pg, id_entry := i, valid := True, referenced := True\<rparr>"
    let ?s' = "s\<lparr>sets := (sets s)[k := (sets s ! k)[j := ?e]]\<rparr>"
    have run: "allocate_page s i m = Some (Some (next_ptr m), ?s', m\<lparr>next_ptr := Suc (next_ptr m)\<rparr>)"
      using sb ne k kl Some by (simp add: allocate_page_def elem_at_def make_page_def Let_def)
    have "section_wf ?s'"
      using wf sb kl by (simp add: section_wf_def list_all_nth_update)
    moreover have "?pg \<in> set (owned_pages ?s')"
      using owned_pages_sets_update [OF kl j, of ?e ?pg] by (simp add: owned_pages_def entries_def)
    ultimately show ?thesis using run by simp
  next
    case None
    obtain v st' ch where fv: "find_victim_in_set s k m =
           Some (v, s\<lparr>sets := (sets s)[k := st']\<rparr>, m\<lparr>clock_hand := ch\<rparr>)"
      and v: "v < unat (associativity s)" and lst: "length st' = unat (associativity s)"
      using find_victim_in_set_ok [OF assoc kl lk] by blast
    let ?pg = "(next_ptr m, Page_new i (line_size s))"
    let ?e = "(clean_victim (st' ! v))\<lparr>page := Some ?pg, id_entry := i, valid := True, referenced := True\<rparr>"
    let ?xs = "(sets s)[k := st']"
    let ?s' = "s\<lparr>sets := ?xs[k := st'[v := ?e]]\<rparr>"
    have run: "allocate_page s i m = Some (Some (next_ptr m), ?s', m\<lparr>clock_hand := ch, next_ptr := Suc (next_ptr m)\<rparr>)"
      using sb ne k kl None fv v lst
      by (simp add: allocate_page_def elem_at_def make_page_def Let_def)
    have "list_all (\<lambda>st. length st = unat (associativity s)) (?xs[k := st'[v := ?e]])"
      using all lst by (intro list_all_length_update) auto
    then have "section_wf ?s'"
      using wf sb kl by (simp add: section_wf_def)
    moreover have "?pg \<in> set (owned_pages ?s')"
      using owned_pages_sets_update [of k ?xs v ?e ?pg] kl v lst
      by (simp add: owned_pages_def entries_def)
    ultimately show ?thesis using run by simp
  qed
qed

lemma ran_upd_subset: "ran (m(k \<mapsto> v)) \<subseteq> insert v (ran m)"
  by (auto simp: ran_def split: if_splits)

lemma ran_del_subset: "ran (m(k := None)) \<subseteq> ran m"
  by (auto simp: ran_def split: if_splits)

lemma keys_rotate_last:
  "ps \<noteq> [] \<Longrightarrow> last ps = (n, v) \<Longrightarrow> fst ` set ((n, e) # butlast ps) = fst ` set ps"
proof -
  assume a: "ps \<noteq> []" "last ps = (n, v)"
  then have "ps = butlast ps @ [(n, v)]" by (metis append_butlast_last_id)
  then have "set ps = insert (n, v) (set (butlast ps))"
    by (metis Un_insert_right append_Nil2 list.simps(15) set_append)
  then show ?thesis by auto
qed

lemma allocate_page_fully_associative:
  assumes wf: "section_wf s" and fa: "\<not> set_based (structure_sec s)"
  shows "\<exists>s'. allocate_page s i m = Some (Some (next_ptr m), s', m\<lparr>next_ptr := Suc (next_ptr m)\<rparr>) \<and>
           section_wf s' \<and> line_size s' = line_size s \<and> structure_sec s' = structure_sec s \<and>
           (next_ptr m, Page_new i (line_size s)) \<in> set (owned_pages s')"
proof -
  from wf fa have ran: "ran (page_map s) \<subseteq> fst ` set (pages s)"
    and la: "line_size s * associativity s \<noteq> 0"
    by (auto simp: section_wf_def)
  let ?pg = "(next_ptr m, Page_new i (line_size s))"
  show ?thesis
  proof (cases "of_nat (length (pages s)) < pages_capacity s \<or> pages s = []")
    case True
    let ?e = "CacheEntry_new\<lparr>page := Some ?pg, id_entry := i, valid := True\<rparr>"
    let ?s' = "s\<lparr>pages := (next_node s, ?e) # pages s,
                 page_map := (page_map s)(i \<mapsto> next_node s), next_node := Suc (next_node s)\<rparr>"
    have run: "allocate_page s i m = Some (Some (next_ptr m), ?s', m\<lparr>next_ptr := Suc (next_ptr m)\<rparr>)"
      using fa True by (auto simp: allocate_page_def emplace_front_page_def make_page_def Let_def)
    have "ran ((page_map s)(i \<mapsto> next_node s)) \<subseteq> insert (next_node s) (fst ` set (pages s))"
      using ran ran_upd_subset [of "page_map s" i "next_node s"] by blast
    then have "section_wf ?s'"
      using fa la by (simp add: section_wf_def)
    moreover have "?pg \<in> set (owned_pages ?s')"
      by (simp add: owned_pages_def entries_def List.map_filter_def)
    ultimately show ?thesis using run by simp
  next
    case False
    then have ne: "pages s \<noteq> []" and full: "\<not> of_nat (length (pages s)) < pages_capacity s" by auto
    obtain n victim where l: "last (pages s) = (n, victim)" by (cases "last (pages s)")
    let ?pm = "(if valid victim then (page_map s)(id_entry victim := None) else page_map s)"
    let ?e = "(clean_victim victim)\<lparr>page := Some ?pg, id_entry := i, valid := True\<rparr>"
    let ?s' = "s\<lparr>pages := (n, ?e) # butlast (pages s), page_map := ?pm(i \<mapsto> n)\<rparr>"
    have run: "allocate_page s i m = Some (Some (next_ptr m), ?s', m\<lparr>next_ptr := Suc (next_ptr m)\<rparr>)"
      using fa ne full l by (simp add: allocate_page_def make_page_def Let_def)
    have keys: "fst ` set ((n, ?e) # butlast (pages s)) = fst ` set (pages s)"
      using keys_rotate_last [OF ne l] .
    have "ran ?pm \<subseteq> fst ` set (pages s)"
      using ran ran_del_subset [of "page_map s" "id_entry victim"] by (auto split: if_splits)
    moreover have "n \<in> fst ` set (pages s)"
      using keys by auto
    ultimately have "ran (?pm(i \<mapsto> n)) \<subseteq> fst ` set ((n, ?e) # butlast (pages s))"
      using ran_upd_subset [of ?pm i n] unfolding keys by blast
    then have "section_wf ?s'"
      using fa la by (simp add: section_wf_def)
    moreover have "?pg \<in> set (owned_pages ?s')"
      by (simp add: owned_pages_def entries_def List.map_filter_def)
    ultimately show ?thesis using run by simp
  qed
qed

lemma allocate_page_ok:
  assumes wf: "section_wf s"
  shows "\<exists>s' m'. allocate_page s i m = Some (Some (next_ptr m), s', m') \<and> section_wf s' \<and>
           line_size s' = line_size s \<and> structure_sec s' = structure_sec s \<and>
           (next_ptr m, Page_new i (line_size s)) \<in> set (owned_pages s')"
proof (cases "set_based (structure_sec s)")
  case True
  show ?thesis by (rule allocate_page_set_based [OF wf True])
next
  case False
  obtain s' where "allocate_page s i m = Some (Some (next_ptr m), s', m\<lparr>next_ptr := Suc (next_ptr m)\<rparr>) \<and>
           section_wf s' \<and> line_size s' = line_size s \<and> structure_sec s' = structure_sec s \<and>
           (next_ptr m, Page_new i (line_size s)) \<in> set (owned_pages s')"
    using allocate_page_fully_associative [OF wf False, of i m] by (elim exE)
  then show ?thesis by (intro exI [of _ s'] exI [of _ "m\<lparr>next_ptr := Suc (next_ptr m)\<rparr>"])
qed

lemma section_wf_stats: "section_wf (s\<lparr>stats := st\<rparr>) = section_wf s"
  by (simp add: section_wf_def)

lemma new_page_sec_ok:
  assumes wf: "section_wf s"
  shows "\<exists>s' m'. new_page_sec s i m = Some (Some (next_ptr m), s', m') \<and> section_wf s' \<and>
           line_size s' = line_size s \<and> structure_sec s' = structure_sec s \<and>
           (next_ptr m, Page_new i (line_size s)) \<in> set (owned_pages s')"
proof -
  have "section_wf (s\<lparr>stats := count_miss (stats s)\<rparr>)"
    using wf by (simp only: section_wf_stats)
  from allocate_page_ok [OF this, of i m] show ?thesis
    by (simp add: new_page_sec_def)
qed

lemma new_page_sec_wf:
  assumes "section_wf s" and "new_page_sec s i m = Some (r, s', m')"
  shows "section_wf s'"
proof -
  obtain s1 m1 where "new_page_sec s i m = Some (Some (next_ptr m), s1, m1)" and "section_wf s1"
    using new_page_sec_ok [OF assms(1), of i m] by (elim exE conjE)
  with assms(2) show ?thesis by simp
qed

lemma on_section_page_wf: "section_wf s \<Longrightarrow> section_wf (on_section_page a f s)"
proof -
  assume wf: "section_wf s"
  have "fst ` set (map (\<lambda>(n, e). (n, on_entry_page a f e)) (pages s)) = fst ` set (pages s)"
    by force
  moreover have "list_all (\<lambda>st. length st = k) xs \<Longrightarrow>
      list_all (\<lambda>st. length st = k) (map (map (on_entry_page a f)) xs)" for k xs
    by (induction xs) auto
  ultimately show ?thesis
    using wf by (simp add: section_wf_def on_section_page_def)
qed

lemma flush_all_pages_sec_wf: "section_wf s \<Longrightarrow> section_wf (flush_all_pages_sec s)"
proof -
  assume wf: "section_wf s"
  have "fst ` set (map (\<lambda>(n, e). (n, flush_entry e)) (pages s)) = fst ` set (pages s)"
    by force
  moreover have "list_all (\<lambda>st. length st = k) xs \<Longrightarrow>
      list_all (\<lambda>st. length st = k) (map (map flush_entry) xs)" for k xs
    by (induction xs) auto
  ultimately show ?thesis
    using wf by (simp add: section_wf_def flush_all_pages_sec_def)
qed

lemma reset_stats_wf: "section_wf s \<Longrightarrow> section_wf (reset_stats s)"
  by (simp add: reset_stats_def section_wf_stats)

lemma fresh_sets_shape:
  "length (fresh_sets ns assoc) = unat ns \<and>
   list_all (\<lambda>st. length st = unat assoc) (fresh_sets ns assoc)"
  by (simp add: fresh_sets_def list_all_iff)

lemma resize_wf:
  assumes wf: "section_wf s" and r: "resize s n = Some s'"
  shows "section_wf s'"
proof (cases "n = size_sec s")
  case True
  with r wf show ?thesis by (simp add: resize_def)
next
  case False
  show ?thesis
  proof (cases "set_based (structure_sec s)")
    case True
    with r False wf show ?thesis
      by (auto simp: resize_def section_wf_def Let_def fresh_sets_shape split: if_splits)
  next
    case fa: False
    with r False wf show ?thesis
      by (auto simp: resize_def section_wf_def Let_def split: if_splits)
  qed
qed

lemma has_section_put: "has_section (put_section sid s c) k = (k = sid \<or> has_section c k)"
  by (simp add: has_section_def put_section_def update_conv')

lemma has_section_map:
  "has_section (c\<lparr>sections := map (\<lambda>(k, s). (k, f s)) (sections c)\<rparr>) k = has_section c k"
  by (simp add: has_section_def map_of_map)

lemma routing_wf_put: "routing_wf c \<Longrightarrow> routing_wf (put_section sid s c)"
  by (simp add: routing_wf_def has_section_put) (simp add: put_section_def)

lemma routing_wf_map:
  "routing_wf c \<Longrightarrow> routing_wf (c\<lparr>sections := map (\<lambda>(k, s). (k, f s)) (sections c)\<rparr>)"
  by (simp add: routing_wf_def has_section_def map_of_map)

lemma routing_wf_on_page: "routing_wf c \<Longrightarrow> routing_wf (on_page a f c)"
  unfolding on_page_def by (rule routing_wf_map)

lemma fetch_page_routing_wf:
  assumes "routing_wf c" and "fetch_page c i m = Some (r, c', m')"
  shows "routing_wf c'"
proof -
  from assms(2) obtain sid s' where "c' = put_section sid s' c"
    by (auto simp: fetch_page_def split: Option.bind_splits option.splits)
  then show ?thesis using assms(1) by (simp add: routing_wf_put)
qed

lemma through_page_routing_wf:
  "routing_wf c \<Longrightarrow> through_page f c pg = Some c' \<Longrightarrow> routing_wf c'"
  by (auto simp: through_page_def routing_wf_on_page split: option.splits Option.bind_splits)

lemma create_section_routing_wf:
  assumes "routing_wf c" and "create_section c sz ls st assoc = Some (sid, c')"
  shows "routing_wf c'"
  using assms
  by (auto simp: create_section_def Let_def routing_wf_def has_section_def update_conv'
      split: Option.bind_splits)

lemma erase_section_ranges_length:
  "erase_section_ranges k sid rs ids = Some (rs', ids') \<Longrightarrow> length ids = length rs \<Longrightarrow>
   length ids' = length rs'"
proof (induction k sid rs ids rule: erase_section_ranges.induct)
  case (1 k sid rs ids)
  show ?case
  proof (cases "k < length rs")
    case False
    then show ?thesis using "1.prems" by (subst (asm) erase_section_ranges.simps) simp
  next
    case True
    then obtain x where x: "elem_at ids k = Some x"
      using "1.prems" by (simp add: elem_at_def)
    show ?thesis
    proof (cases "x = sid")
      case eq: True
      have "erase_section_ranges k sid (take k rs @ drop (Suc k) rs) (take k ids @ drop (Suc k) ids)
            = Some (rs', ids')"
        using "1.prems"(1) True x eq by (subst (asm) erase_section_ranges.simps) simp
      from "1.IH"(1) [OF True x eq this] "1.prems"(2) show ?thesis by simp
    next
      case ne: False
      have "erase_section_ranges (Suc k) sid rs ids = Some (rs', ids')"
        using "1.prems"(1) True x ne by (subst (asm) erase_section_ranges.simps) simp
      from "1.IH"(2) [OF True x ne this] "1.prems"(2) show ?thesis by simp
    qed
  qed
qed

lemma erase_overlaps_length:
  "erase_overlaps k a b rs ids = Some (rs', ids') \<Longrightarrow> length ids = length rs \<Longrightarrow>
   length ids' = length rs'"
proof (induction k a b rs ids rule: erase_overlaps.induct)
  case (1 k a b rs ids)
  show ?case
  proof (cases "k < length rs")
    case False
    then show ?thesis using "1.prems" by (subst (asm) erase_overlaps.simps) simp
  next
    case True
    show ?thesis
    proof (cases "snd (rs ! k) < a \<or> b < fst (rs ! k)")
      case ov: False
      from True "1.prems"(2) have e: "erase_at k ids = Some (take k ids @ drop (Suc k) ids)"
        by (simp add: erase_at_def)
      have "erase_overlaps k a b (take k rs @ drop (Suc k) rs) (take k ids @ drop (Suc k) ids)
            = Some (rs', ids')"
        using "1.prems"(1) True ov e by (subst (asm) erase_overlaps.simps) auto
      from "1.IH"(1) [OF True _ e this] ov "1.prems"(2) show ?thesis by simp
    next
      case no: True
      have "erase_overlaps (Suc k) a b rs ids = Some (rs', ids')"
        using "1.prems"(1) True no by (subst (asm) erase_overlaps.simps) auto
      from "1.IH"(2) [OF True _ this] no "1.prems"(2) show ?thesis by simp
    qed
  qed
qed

lemma remove_section_routing_wf:
  assumes "routing_wf c" and "remove_section c sid = Some c'"
  shows "routing_wf c'"
proof (cases "sid = default_section_id c \<or> map_of (sections c) sid = None")
  case True
  then show ?thesis using assms by (auto simp: remove_section_def split: if_splits)
next
  case False
  then obtain s where s: "map_of (sections c) sid = Some s" and ne: "sid \<noteq> default_section_id c"
    by auto
  from assms(2) s ne obtain rs ids where
    e: "erase_section_ranges 0 sid (page_ranges c) (range_section_ids c) = Some (rs, ids)"
    and c': "sections c' = AList.delete sid (sections c)" "default_section_id c' = default_section_id c"
      "page_ranges c' = rs" "range_section_ids c' = ids"
    by (auto simp: remove_section_def split: Option.bind_splits)
  have "length ids = length rs"
    using erase_section_ranges_length [OF e] assms(1) by (simp add: routing_wf_def)
  then show ?thesis
    using assms(1) ne c' by (simp add: routing_wf_def has_section_def delete_conv')
qed

lemma resize_section_routing_wf:
  assumes "routing_wf c" and "resize_section c sid n = Some c'"
  shows "routing_wf c'"
proof (cases "map_of (sections c) sid")
  case None
  with assms show ?thesis by (simp add: resize_section_def)
next
  case (Some s)
  with assms(2) obtain av s' where c': "c' = put_section sid s' (c\<lparr>available_size := av\<rparr>)"
    by (auto simp: resize_section_def Let_def split: Option.bind_splits)
  have "routing_wf (c\<lparr>available_size := av\<rparr>)"
    using assms(1) by (simp add: routing_wf_def has_section_def)
  then show ?thesis unfolding c' by (rule routing_wf_put)
qed

lemma map_page_range_routing_wf:
  assumes "routing_wf c" and "map_page_range_to_section c a b sid = Some c'"
  shows "routing_wf c'"
proof (cases "has_section c sid")
  case False
  with assms show ?thesis by (simp add: map_page_range_to_section_def)
next
  case True
  with assms(2) obtain rs ids where
    e: "erase_overlaps 0 a b (page_ranges c) (range_section_ids c) = Some (rs, ids)"
    and c': "c' = c\<lparr>page_ranges := rs @ [(a, b)], range_section_ids := ids @ [sid]\<rparr>"
    by (auto simp: map_page_range_to_section_def split: Option.bind_splits)
  have "length ids = length rs"
    using erase_overlaps_length [OF e] assms(1) by (simp add: routing_wf_def)
  then show ?thesis using assms(1) unfolding c' by (simp add: routing_wf_def has_section_def)
qed

lemma reachable_routing_wf: "reachable c m \<Longrightarrow> routing_wf c"
proof (induction rule: reachable.induct)
  case (constructed tsz psz default_line_size c m)
  then show ?case
    by (auto simp: ConfigurableCache_new_def create_section_def Let_def routing_wf_def
        has_section_def split: Option.bind_splits)
next
  case (after_new_page c m r c' m')
  then show ?case by (simp add: new_page_def find_section_for_page_def lock_defs)
next
  case (after_fetch_page c m i r c' m')
  then show ?case using fetch_page_routing_wf by blast
next
  case (after_pin_page c m pg c')
  then show ?case unfolding pin_page_def using through_page_routing_wf by blast
next
  case (after_unpin_page c m pg d c')
  then show ?case unfolding unpin_page_def using through_page_routing_wf by blast
next
  case (after_flush_page c m pg c')
  then show ?case unfolding flush_page_def using through_page_routing_wf by blast
next
  case (after_flush_all_pages c m)
  then show ?case unfolding flush_all_pages_def by (simp add: routing_wf_map)
next
  case (after_prefetch c m sid s i s' m')
  then show ?case by (simp add: routing_wf_put)
next
  case (after_create_section c m sz ls st assoc sid c')
  then show ?case using create_section_routing_wf by blast
next
  case (after_remove_section c m sid c')
  then show ?case using remove_section_routing_wf by blast
next
  case (after_resize_section c m sid new_size c')
  then show ?case using resize_section_routing_wf by blast
next
  case (after_map_page_to_section c m i sid)
  then show ?case by (simp add: map_page_to_section_def routing_wf_def has_section_def)
next
  case (after_map_page_range_to_section c m start_id end_id sid c')
  then show ?case using map_page_range_routing_wf by blast
next
  case (after_reset_all_stats c m)
  then show ?case unfolding reset_all_stats_def by (simp add: routing_wf_map)
next
  case (page_counter_advanced c m)
  then show ?case by (simp add: routing_wf_def has_section_def)
next
  case (miss_counted c m sid s)
  then show ?case by (simp add: routing_wf_put)
next
  case (section_new_page c m sid s i r s' m')
  then show ?case by (simp add: routing_wf_put)
qed

lemma range_section_ok:
  assumes "\<forall>(k, r) \<in> set xs. k < length ids" and "has d"
  shows "\<exists>sid. range_section has ids i xs (Some d) = Some sid \<and> has sid"
  using assms(1)
proof (induction xs)
  case Nil
  then show ?case using assms(2) by simp
next
  case (Cons x xs)
  obtain k r where x: "x = (k, r)" by (cases x)
  with Cons.prems have k: "k < length ids" by simp
  from Cons have IH: "\<exists>sid. range_section has ids i xs (Some d) = Some sid \<and> has sid" by simp
  show ?case
    using IH k by (simp add: x elem_at_def)
qed

lemma find_section_for_page_ok:
  assumes "routing_wf c"
  shows "\<exists>sid s. find_section_for_page Unlocked c i = Some sid \<and> map_of (sections c) sid = Some s"
proof -
  from assms have d: "has_section c (default_section_id c)"
    and len: "length (range_section_ids c) = length (page_ranges c)"
    by (simp_all add: routing_wf_def)
  have dflt: "default_or_first c = Some (default_section_id c)"
    using d by (simp add: default_or_first_def)
  have "\<forall>(k, r) \<in> set (enumerate 0 (page_ranges c)). k < length (range_section_ids c)"
    using len by (auto simp: in_set_enumerate_eq)
  from range_section_ok [where has = "has_section c", OF this d, of i]
  obtain sid where r: "range_section (has_section c) (range_section_ids c) i
      (enumerate 0 (page_ranges c)) (default_or_first c) = Some sid" and h: "has_section c sid"
    unfolding dflt by blast
  have "\<exists>sid. find_section_for_page Unlocked c i = Some sid \<and> has_section c sid"
  proof (cases "page_to_section_map c i")
    case None
    then show ?thesis using r h by (simp add: find_section_for_page_def lock_defs)
  next
    case (Some x)
    then show ?thesis
      using r h by (cases "has_section c x") (simp_all add: find_section_for_page_def lock_defs)
  qed
  then show ?thesis by (auto simp: has_section_def)
qed

lemma find_victim_in_set_shape:
  assumes "find_victim_in_set s k m = Some (v, s1, m1)"
  shows "\<exists>st'. s1 = s\<lparr>sets := (sets s)[k := st']\<rparr> \<and> k < length (sets s) \<and>
           length st' = length (sets s ! k)"
proof -
  from assms obtain p st' where
    scan: "clock_scan (associativity s) (clock_hand m mod associativity s)
             (clock_hand m mod associativity s) (sets s ! k) = Some (p, st')"
    and k: "k < length (sets s)" and s1: "s1 = s\<lparr>sets := (sets s)[k := st']\<rparr>"
    by (auto simp: find_victim_in_set_def elem_at_def Let_def split: if_splits Option.bind_splits)
  from clock_scan_length [OF scan] k s1 show ?thesis by blast
qed

lemma prefetch_page_sec_stats:
  "prefetch_page_sec s i m = Some (s', m') \<Longrightarrow> stats s' = stats s"
  by (auto simp: prefetch_page_sec_def emplace_front_page_def make_page_def Let_def
      dest!: find_victim_in_set_stats
      split: if_splits option.splits Option.bind_splits prod.splits)

lemma prefetch_page_sec_wf:
  assumes wf: "section_wf s" and run: "prefetch_page_sec s i m = Some (s', m')"
  shows "section_wf s'"
proof (cases "set_based (structure_sec s)")
  case True
  from wf True have all: "list_all (\<lambda>st. length st = unat (associativity s)) (sets s)"
    by (simp add: section_wf_def)
  from run True obtain k st where k: "k < length (sets s)" and st: "st = sets s ! k"
    and rest: "(if find_first (\<lambda>e. valid e \<and> id_entry e = i) st \<noteq> None then Some (s, m)
        else
          (case find_first (\<lambda>e. \<not> valid e) st of
             Some j \<Rightarrow>
               let (pg, m1) = make_page i (line_size s) m;
                   e = (st ! j)\<lparr>page := Some pg, id_entry := i, valid := True\<rparr>
               in Some (s\<lparr>sets := (sets s)[k := st[j := e]]\<rparr>, m1)
           | None \<Rightarrow> do {
               (victim_idx, s1, m1) \<leftarrow> find_victim_in_set s k m;
               st1 \<leftarrow> elem_at (sets s1) k;
               victim \<leftarrow> elem_at st1 victim_idx;
               old \<leftarrow> page victim;
               (let (pg, m2) = make_page i (line_size s1) m1;
                    e = victim\<lparr>page := Some pg, id_entry := i, valid := True,
                               referenced := False\<rparr>
                in Some (s1\<lparr>sets := (sets s1)[k := st1[victim_idx := e]]\<rparr>, m2))
             })) = Some (s', m')"
    by (auto simp: prefetch_page_sec_def elem_at_def split: Option.bind_splits if_splits)
  show ?thesis
  proof (cases "find_first (\<lambda>e. valid e \<and> id_entry e = i) st \<noteq> None")
    case True
    with rest wf show ?thesis by simp
  next
    case nf: False
    show ?thesis
    proof (cases "find_first (\<lambda>e. \<not> valid e) st")
      case (Some j)
      with rest nf obtain e where "s' = s\<lparr>sets := (sets s)[k := (sets s ! k)[j := e]]\<rparr>"
        by (auto simp: make_page_def Let_def st)
      then show ?thesis
        using wf True k by (simp add: section_wf_def list_all_nth_update)
    next
      case None
      with rest nf obtain v s1 m1 st1 e where fv: "find_victim_in_set s k m = Some (v, s1, m1)"
        and st1: "elem_at (sets s1) k = Some st1"
        and s': "s' = s1\<lparr>sets := (sets s1)[k := st1[v := e]]\<rparr>"
        by (auto simp: make_page_def Let_def split: Option.bind_splits)
      from find_victim_in_set_shape [OF fv] obtain st' where
        s1: "s1 = s\<lparr>sets := (sets s)[k := st']\<rparr>" and len: "length st' = length (sets s ! k)"
        by blast
      have lk: "length (sets s ! k) = unat (associativity s)"
        using all k by (simp add: list_all_length)
      have "st1 = st'" using st1 s1 k by (simp add: elem_at_def)
      then have "s' = s\<lparr>sets := (sets s)[k := st'[v := e]]\<rparr>"
        using s' s1 by simp
      moreover have "list_all (\<lambda>st. length st = unat (associativity s)) ((sets s)[k := st'[v := e]])"
        using all len lk by (intro list_all_length_update) simp_all
      ultimately show ?thesis
        using wf True by (simp add: section_wf_def)
    qed
  qed
next
  case False
  with wf have ran: "ran (page_map s) \<subseteq> fst ` set (pages s)"
    and la: "line_size s * associativity s \<noteq> 0"
    by (simp_all add: section_wf_def)
  show ?thesis
  proof (cases "page_map s i")
    case (Some n)
    with run False wf show ?thesis by (simp add: prefetch_page_sec_def)
  next
    case None
    show ?thesis
    proof (cases "of_nat (length (pages s)) < pages_capacity s")
      case True
      with run False None
      have s': "s' = s\<lparr>pages := (next_node s, CacheEntry_new\<lparr>page := Some (next_ptr m, Page_new i (line_size s)),
                                     id_entry := i, valid := True\<rparr>) # pages s,
                     page_map := (page_map s)(i \<mapsto> next_node s), next_node := Suc (next_node s)\<rparr>"
        by (simp add: prefetch_page_sec_def emplace_front_page_def make_page_def Let_def)
      have "ran ((page_map s)(i \<mapsto> next_node s)) \<subseteq> insert (next_node s) (fst ` set (pages s))"
        using ran ran_upd_subset [of "page_map s" i "next_node s"] by blast
      then show ?thesis unfolding s' using False la by (simp add: section_wf_def)
    next
      case full: False
      with run False None have ne: "pages s \<noteq> []"
        by (auto simp: prefetch_page_sec_def split: if_splits)
      obtain n victim where l: "last (pages s) = (n, victim)" by (cases "last (pages s)")
      let ?pm = "(page_map s)(id_entry victim := None)"
      from run False None full ne l obtain e where
        s': "s' = s\<lparr>pages := (n, e) # butlast (pages s), page_map := ?pm(i \<mapsto> n)\<rparr>"
        by (auto simp: prefetch_page_sec_def make_page_def Let_def)
      have keys: "fst ` set ((n, e) # butlast (pages s)) = fst ` set (pages s)"
        using keys_rotate_last [OF ne l] .
      have "ran ?pm \<subseteq> fst ` set (pages s)"
        using ran ran_del_subset [of "page_map s" "id_entry victim"] by blast
      moreover have "n \<in> fst ` set (pages s)" using keys by auto
      ultimately have "ran (?pm(i \<mapsto> n)) \<subseteq> fst ` set ((n, e) # butlast (pages s))"
        using ran_upd_subset [of ?pm i n] unfolding keys by blast
      then show ?thesis unfolding s' using False la by (simp add: section_wf_def)
    qed
  qed
qed

lemma reachable_section_wf: "reachable c m \<Longrightarrow> all_sections section_wf c"
  by (rule reachable_all_sections [where P = section_wf])
     (auto intro: CacheSection_new_wf fetch_page_sec_wf new_page_sec_wf on_section_page_wf
        flush_all_pages_sec_wf resize_wf reset_stats_wf prefetch_page_sec_wf
        simp: section_wf_stats)

lemma CacheSection_new_consistent:
  "CacheSection_new sid sz ls st assoc = Some s \<Longrightarrow> stats_consistent s"
  by (auto simp: CacheSection_new_def stats_consistent_def CacheSectionStats_new_def Let_def
      split: if_splits)

lemma fetch_page_sec_consistent:
  "stats_consistent s \<Longrightarrow> fetch_page_sec s i = Some (r, s') \<Longrightarrow> stats_consistent s'"
  using fetch_page_sec_stats [of s i r s']
  by (auto simp: stats_consistent_def count_hit_consistent count_miss_consistent)

lemma new_page_sec_consistent:
  "stats_consistent s \<Longrightarrow> new_page_sec s i m = Some (r, s', m') \<Longrightarrow> stats_consistent s'"
  using new_page_sec_stats [of s i m r s' m']
  by (auto simp: stats_consistent_def count_miss_consistent)

lemma reachable_stats_consistent: "reachable c m \<Longrightarrow> all_sections stats_consistent c"
proof (rule reachable_all_sections [where P = stats_consistent])
  show "\<And>sid sz ls st assoc s. CacheSection_new sid sz ls st assoc = Some s \<Longrightarrow> stats_consistent s"
    by (rule CacheSection_new_consistent)
  show "\<And>s i r s'. stats_consistent s \<Longrightarrow> fetch_page_sec s i = Some (r, s') \<Longrightarrow> stats_consistent s'"
    by (rule fetch_page_sec_consistent)
  show "\<And>s i m r s' m'. stats_consistent s \<Longrightarrow> new_page_sec s i m = Some (r, s', m') \<Longrightarrow> stats_consistent s'"
    by (rule new_page_sec_consistent)
  show "\<And>s a f. stats_consistent s \<Longrightarrow> stats_consistent (on_section_page a f s)"
    by (simp add: stats_consistent_def on_section_page_stats)
  show "\<And>s. stats_consistent s \<Longrightarrow> stats_consistent (flush_all_pages_sec s)"
    by (simp add: stats_consistent_def flush_all_pages_sec_stats)
  show "\<And>s n s'. stats_consistent s \<Longrightarrow> resize s n = Some s' \<Longrightarrow> stats_consistent s'"
    by (auto simp: stats_consistent_def dest: resize_stats)
  show "\<And>s. stats_consistent s \<Longrightarrow> stats_consistent (reset_stats s)"
    by (simp add: stats_consistent_def reset_stats_def CacheSectionStats_new_def)
  show "\<And>s i m s' m'. stats_consistent s \<Longrightarrow> prefetch_page_sec s i m = Some (s', m') \<Longrightarrow>
      stats_consistent s'"
    by (simp add: stats_consistent_def prefetch_page_sec_stats)
  show "\<And>s. stats_consistent s \<Longrightarrow> stats_consistent (s\<lparr>stats := count_miss (stats s)\<rparr>)"
    by (simp add: stats_consistent_def count_miss_consistent)
qed

lemma fresh_sets_no_valid: "filter valid (concat (fresh_sets ns assoc)) = []"
  by (auto simp: fresh_sets_def filter_empty_conv CacheEntry_new_def)

lemma apply_pin_ops_count:
  "pin_count (apply_pin_ops ops p) =
     pin_count p + of_nat (count_list ops Pin) - of_nat (count_list ops Unpin)"
proof (induction ops arbitrary: p)
  case Nil
  then show ?case by simp
next
  case (Cons x ops)
  then show ?case by (cases x) (simp_all add: pin_def unpin_def)
qed

lemma sint_pin_difference:
  assumes "a + b < 2 ^ 31"
  shows "sint ((of_nat a :: 32 word) - of_nat b) = int a - int b"
proof -
  have "sint ((of_nat a :: 32 word) - of_nat b) = sint (word_of_int (int a - int b) :: 32 word)"
    by simp
  also have "\<dots> = signed_take_bit (LENGTH(32) - 1) (int a - int b)"
    by (rule sint_sbintrunc')
  also have "\<dots> = int a - int b"
    using assms by (intro signed_take_bit_int_eq_self) simp_all
  finally show ?thesis .
qed

lemma count_pin_ops: "count_list ops Pin + count_list ops Unpin = length ops"
proof (induction ops)
  case Nil
  then show ?case by simp
next
  case (Cons x ops)
  then show ?case by (cases x) simp_all
qed

lemma pin_count_after_ops:
  assumes "length ops < 2 ^ 31"
  shows "sint (pin_count (apply_pin_ops ops (Page_new i sz)))
         = int (count_list ops Pin) - int (count_list ops Unpin)"
proof -
  have "count_list ops Pin + count_list ops Unpin < 2 ^ 31"
    using assms by (simp add: count_pin_ops)
  from sint_pin_difference [OF this] show ?thesis
    by (simp add: apply_pin_ops_count Page_new_def)
qed

lemma evict_scan_second_keeps_unlisted:
  "k \<le> length (lru_list c) \<Longrightarrow> i \<notin> set (take k (lru_list c)) \<Longrightarrow>
   map_of (page_map_s (evict_scan_second k c)) i = map_of (page_map_s c) i"
proof (induction k arbitrary: c)
  case 0
  then show ?case by simp
next
  case (Suc k)
  let ?j = "lru_list c ! k"
  from Suc.prems have kl: "k < length (lru_list c)" by simp
  then have t: "take (Suc k) (lru_list c) = take k (lru_list c) @ [?j]"
    by (simp add: take_Suc_conv_app_nth)
  with Suc.prems have ne: "i \<noteq> ?j" and ni: "i \<notin> set (take k (lru_list c))" by auto
  show ?case
  proof (cases "map_of (page_map_s c) ?j")
    case None
    then show ?thesis using Suc.IH [of c] kl ni by (simp add: Let_def)
  next
    case (Some ap)
    obtain a p where ap: "ap = (a, p)" by (cases ap)
    show ?thesis
    proof (cases "sint (pin_count p) \<le> 0")
      case True
      then show ?thesis using Some ap ne by (simp add: Let_def unpin_def delete_conv')
    next
      case False
      let ?c' = "c\<lparr>page_map_s := AList.update ?j (a, p\<lparr>pin_count := pin_count p - 1\<rparr>) (page_map_s c)\<rparr>"
      have "map_of (page_map_s (evict_scan_second k ?c')) i = map_of (page_map_s ?c') i"
        using Suc.IH [of ?c'] kl ni by simp
      then show ?thesis using Some ap ne False by (simp add: Let_def unpin_def update_conv')
    qed
  qed
qed

lemma evict_scan_second_only_unpinned:
  "k \<le> length (lru_list c) \<Longrightarrow> distinct (lru_list c) \<Longrightarrow>
   map_of (page_map_s c) i = Some (a, p) \<Longrightarrow>
   map_of (page_map_s (evict_scan_second k c)) i = None \<Longrightarrow> sint (pin_count p) \<le> 0"
proof (induction k arbitrary: c)
  case 0
  then show ?case by simp
next
  case (Suc k)
  let ?j = "lru_list c ! k"
  from Suc.prems have kl: "k < length (lru_list c)" by simp
  show ?case
  proof (cases "map_of (page_map_s c) ?j")
    case None
    then show ?thesis using Suc.IH [of c] Suc.prems kl by (simp add: Let_def)
  next
    case (Some bq)
    obtain b q where bq: "bq = (b, q)" by (cases bq)
    show ?thesis
    proof (cases "sint (pin_count q) \<le> 0")
      case True
      then have "map_of (page_map_s (evict_scan_second (Suc k) c)) = (map_of (page_map_s c))(?j := None)"
        using Some bq by (simp add: Let_def unpin_def delete_conv')
      with Suc.prems(3,4) have "i = ?j" by (auto split: if_splits)
      with Some bq Suc.prems(3) True show ?thesis by simp
    next
      case False
      let ?c' = "c\<lparr>page_map_s := AList.update ?j (b, q\<lparr>pin_count := pin_count q - 1\<rparr>) (page_map_s c)\<rparr>"
      have step: "evict_scan_second (Suc k) c = evict_scan_second k ?c'"
        using Some bq False by (simp add: Let_def unpin_def)
      show ?thesis
      proof (cases "i = ?j")
        case True
        have "?j \<notin> set (take k (lru_list c))"
          using Suc.prems(2) kl by (metis distinct_take id_take_nth_drop distinct_append
              disjoint_iff list.set_intros(1) take_Suc_conv_app_nth not_distinct_conv_prefix
              append.assoc append_Cons append_Nil)
        then have "map_of (page_map_s (evict_scan_second k ?c')) ?j = map_of (page_map_s ?c') ?j"
          using evict_scan_second_keeps_unlisted [of k ?c' ?j] kl by simp
        then have "map_of (page_map_s (evict_scan_second (Suc k) c)) i \<noteq> None"
          using step True by (simp add: update_conv')
        with Suc.prems(4) show ?thesis by simp
      next
        case ne: False
        have "map_of (page_map_s ?c') i = Some (a, p)"
          using Suc.prems(3) ne by (simp add: update_conv')
        moreover have "map_of (page_map_s (evict_scan_second k ?c')) i = None"
          using Suc.prems(4) step by simp
        ultimately show ?thesis
          using Suc.IH [of ?c'] Suc.prems(2) kl by simp
      qed
    qed
  qed
qed

lemma evict_scan_first_all_pinned:
  "k \<le> length (lru_list c) \<Longrightarrow>
   \<forall>j \<in> set (take k (lru_list c)).
     \<exists>a p. map_of (page_map_s c) j = Some (a, p) \<and> 2 \<le> sint (pin_count p) \<Longrightarrow>
   evict_scan_first k c = Some (c\<lparr>capacity := capacity c + 1\<rparr>)"
proof (induction k)
  case 0
  then show ?case by simp
next
  case (Suc k)
  let ?j = "lru_list c ! k"
  from Suc.prems have kl: "k < length (lru_list c)" by simp
  then have t: "take (Suc k) (lru_list c) = take k (lru_list c) @ [?j]"
    by (simp add: take_Suc_conv_app_nth)
  with Suc.prems(2) obtain a p where m: "map_of (page_map_s c) ?j = Some (a, p)"
    and p: "2 \<le> sint (pin_count p)" by auto
  have rest: "\<forall>j \<in> set (take k (lru_list c)).
      \<exists>a p. map_of (page_map_s c) j = Some (a, p) \<and> 2 \<le> sint (pin_count p)"
    using Suc.prems(2) t by auto
  have same: "c\<lparr>page_map_s := AList.update ?j (a, p) (page_map_s c)\<rparr> = c"
    using m by (simp add: update_triv)
  have ne: "sint (pin_count p) \<noteq> - (2 ^ 31)" using p by simp
  have "evict_scan_first (Suc k) c = evict_scan_first k c"
    using m p ne same by (simp add: Let_def pin_def unpin_def)
  then show ?case using Suc.IH rest kl by simp
qed

lemma evictPage_first_all_pinned:
  assumes "\<forall>j \<in> set (lru_list c).
      \<exists>a p. map_of (page_map_s c) j = Some (a, p) \<and> 2 \<le> sint (pin_count p)"
  shows "evictPage_first c = Some (c\<lparr>capacity := capacity c + 1\<rparr>)"
  unfolding evictPage_first_def using assms by (intro evict_scan_first_all_pinned) simp_all

lemma evictPage_first_evicts_pinned_once:
  "map (\<lambda>(i, a, p). (i, sint (pin_count p))) (page_map_s evict_scenario) = [(1, 1), (2, 0)] \<and>
   map_option (\<lambda>c. (map (\<lambda>(i, a, p). (i, sint (pin_count p))) (page_map_s c), lru_list c,
                     capacity c))
     (evictPage_first evict_scenario) = Some ([(2, 0)], [2], 2)"
  by (simp add: evict_scenario_def evictPage_first_def Let_def unpin_def pin_def Page_new_def)

lemma reachable_prefetch_page:
  assumes "reachable c m" and "prefetch_page c i m = Some (c', m')"
  shows "reachable c' m'"
proof -
  from assms(2) obtain sid s s' where "map_of (sections c) sid = Some s"
    and "prefetch_page_sec s i m = Some (s', m')" and "c' = put_section sid s' c"
    by (auto simp: prefetch_page_def split: Option.bind_splits)
  then show ?thesis using reachable.after_prefetch [OF assms(1)] by blast
qed

lemma refetch_scenario_state_reachable:
  "\<exists>c m. refetch_scenario_state = Some (c, m) \<and> reachable c m"
proof -
  define c0 where "c0 = the (ConfigurableCache_new 4096 4096 4096)"
  have c0: "ConfigurableCache_new 4096 4096 4096 = Some c0"
    unfolding c0_def by (simp add: section_defs cache_defs Let_def)
  then have r0: "reachable c0 process_start" by (rule reachable.constructed)
  define x where "x = the (prefetch_page c0 5 process_start)"
  have p: "prefetch_page c0 5 process_start = Some (fst x, snd x)"
    unfolding x_def c0_def by (simp add: section_defs cache_defs Let_def)
  have r1: "reachable (fst x) (snd x)" using reachable_prefetch_page [OF r0 p] .
  define y where "y = the (fetch_page (fst x) 5 (snd x))"
  have f: "fetch_page (fst x) 5 (snd x) = Some (fst y, fst (snd y), snd (snd y))"
    unfolding y_def x_def c0_def by (simp add: section_defs cache_defs Let_def)
  have r2: "reachable (fst (snd y)) (snd (snd y))" using reachable.after_fetch_page [OF r1 f] .
  have st: "refetch_scenario_state = Some (fst (snd y), snd (snd y))"
    by (simp only: refetch_scenario_state_def c0 p f Option.bind.simps prod.case)
  show ?thesis using st r2 by blast
qed

lemma constructed_shape:
  assumes "ConfigurableCache_new tsz psz dls = Some c"
  shows "\<exists>s. sections c = [(0, s)] \<and> default_section_id c = 0 \<and>
           page_to_section_map c = Map.empty \<and> page_ranges c = [] \<and>
           structure_sec s = FullyAssociative \<and> page_map s = Map.empty \<and> pages s = []"
  using assms
  by (auto simp: ConfigurableCache_new_def create_section_def CacheSection_new_def Let_def
      split: Option.bind_splits if_splits)

lemma fetch_page_sec_returns_hit:
  assumes wf: "section_wf s" and run: "fetch_page_sec s i = Some (r, s')"
  shows "r \<noteq> None \<and> stats s' = count_hit (stats s)"
proof (cases "set_based (structure_sec s)")
  case True
  with wf have ne: "sets s \<noteq> []"
    by (auto simp: section_wf_def unat_eq_zero)
  from run True ne obtain k st j where st: "elem_at (sets s) k = Some st"
    and j: "find_first (\<lambda>e. valid e \<and> id_entry e = i \<and> page e \<noteq> None) st = Some j"
    and r: "r = map_option fst (page (st ! j))" and s': "stats s' = count_hit (stats s)"
    by (auto simp: fetch_page_sec_def lock_defs split: Option.bind_splits option.splits)
  from find_first_inb [OF j] have "page (st ! j) \<noteq> None" by simp
  then show ?thesis using r s' by auto
next
  case False
  with run show ?thesis
    by (auto simp: fetch_page_sec_def lock_defs split: Option.bind_splits option.splits if_splits)
qed

section \<open>Range routing\<close>

text \<open>
  C5, as stated: after \<^verbatim>\<open>map_range(1, 100, A)\<close> and \<^verbatim>\<open>map_range(50, 150, B)\<close>, page 75
  resolves to B, page 30 to A and page 200 to the default section. This fails: the
  second call erases the whole range of A, because the two ranges overlap.
\<close>

theorem c5_range_routing_counterexample:
  "\<not> (case range_scenario of
        Some (a, b, c) \<Rightarrow>
          get_section_for_page c 75 = Some b \<and> get_section_for_page c 30 = Some a \<and>
          get_section_for_page c 200 = Some (default_section_id c)
      | None \<Rightarrow> False)"
  by (simp add: range_scenario_def section_defs cache_defs Let_def)

text \<open>
  C5, amended: after the two calls only the range \<open>(50, 150)\<close> of B is left, so page 75
  resolves to B, and pages 30 and 200 both resolve to the default section, which is
  neither A nor B.
\<close>

theorem c5_range_routing:
  "(case range_scenario of
      Some (a, b, c) \<Rightarrow>
        a \<noteq> default_section_id c \<and> b \<noteq> default_section_id c \<and> a \<noteq> b \<and>
        page_ranges c = [(50, 150)] \<and> range_section_ids c = [b] \<and>
        get_section_for_page c 75 = Some b \<and>
        get_section_for_page c 30 = Some (default_section_id c) \<and>
        get_section_for_page c 200 = Some (default_section_id c)
    | None \<Rightarrow> False)"
  by (simp add: range_scenario_def section_defs cache_defs Let_def)

section \<open>Pinned pages and eviction\<close>

text \<open>
  C1, as stated: on a section of capacity 1 line, \<^verbatim>\<open>new_page()\<close> for a second page fails
  while the first page is still pinned. This fails on a fully-associative
  \<^verbatim>\<open>CacheSection\<close> of one line: the section is full, its page 1 has pin count 1, and
  the second \<^verbatim>\<open>new_page\<close> returns a page; the section then owns page 2 alone.
\<close>

theorem c1_pinned_eviction_counterexample:
  "case pinned_scenario of
     Some (s2, a1, r2, s3) \<Rightarrow>
       page_count s2 = 1 \<and> pages_capacity s2 = 1 \<and>
       map (\<lambda>(a, p). (a = a1, id_page p, sint (pin_count p))) (owned_pages s2) = [(True, 1, 1)] \<and>
       r2 \<noteq> None \<and> map (\<lambda>(a, p). id_page p) (owned_pages s3) = [2]
   | None \<Rightarrow> False"
  by (simp add: pinned_scenario_def section_defs Let_def process_start_def)

text \<open>
  C1, amended: a section never refuses. On every well-formed section, whatever the pin
  counts of its resident pages, \<^verbatim>\<open>CacheSection::new_page\<close> returns a page, not an error;
  in particular it does so on a section of capacity 1 line whose one page is pinned.
\<close>

theorem c1_section_never_refuses:
  assumes "section_wf s"
  shows "\<exists>s' m'. new_page_sec s i m = Some (Some (next_ptr m), s', m') \<and> section_wf s'"
  using new_page_sec_ok [OF assms, of i m] by blast

theorem c1_section_never_refuses_witness:
  "case pinned_scenario of
     Some (s2, a1, r2, s3) \<Rightarrow>
       section_wf s2 \<and> page_count s2 = pages_capacity s2 \<and>
       map (\<lambda>(a, p). (id_page p, sint (pin_count p))) (owned_pages s2) = [(1, 1)] \<and>
       (\<exists>s' m'. new_page_sec s2 2 (process_start\<lparr>next_ptr := 1\<rparr>) = Some (Some 1, s', m')) \<and>
       r2 = Some 1
   | None \<Rightarrow> False"
proof -
  define sc where "sc = the pinned_scenario"
  have sc: "pinned_scenario = Some (fst sc, fst (snd sc), fst (snd (snd sc)), snd (snd (snd sc)))"
    unfolding sc_def by (simp add: pinned_scenario_def section_defs Let_def process_start_def)
  define s0 where "s0 = the (CacheSection_new 0 4096 4096 FullyAssociative 8)"
  have s0: "CacheSection_new 0 4096 4096 FullyAssociative 8 = Some s0"
    unfolding s0_def by (simp add: section_defs Let_def)
  have wf0: "section_wf s0" using CacheSection_new_wf [OF s0] .
  define x where "x = the (new_page_sec s0 1 process_start)"
  have n1: "new_page_sec s0 1 process_start = Some (fst x, fst (snd x), snd (snd x))"
    unfolding x_def s0_def by (simp add: section_defs Let_def process_start_def)
  have wf1: "section_wf (fst (snd x))" using new_page_sec_wf [OF wf0 n1] .
  have s2: "fst sc = on_section_page 0 pin_page_sec (fst (snd x))"
    unfolding sc_def x_def s0_def
    by (simp add: pinned_scenario_def section_defs Let_def process_start_def)
  have wf2: "section_wf (fst sc)" unfolding s2 using wf1 by (rule on_section_page_wf)
  from c1_section_never_refuses [OF wf2, of 2 "process_start\<lparr>next_ptr := 1\<rparr>"]
  have ex: "\<exists>s' m'. new_page_sec (fst sc) 2 (process_start\<lparr>next_ptr := 1\<rparr>) = Some (Some 1, s', m')"
    by (auto simp: process_start_def)
  have facts: "page_count (fst sc) = pages_capacity (fst sc) \<and>
       map (\<lambda>(a, p). (id_page p, sint (pin_count p))) (owned_pages (fst sc)) = [(1, 1)] \<and>
       fst (snd (snd sc)) = Some 1"
    unfolding sc_def
    by (simp add: pinned_scenario_def section_defs Let_def process_start_def)
  show ?thesis
    unfolding sc using wf2 ex facts by simp
qed

section \<open>Pins on fetch\<close>

text \<open>
  C2 at \<^verbatim>\<open>ConfigurableCache(4096, 4096, 4096)\<close>, \<^verbatim>\<open>prefetch_page(5)\<close>, \<^verbatim>\<open>fetch_page(5, lock)\<close>:
  the fetch returns the resident page 5, and the pin count of that page is 0 before
  the fetch and 0 after it.
\<close>

theorem c2_fetch_leaves_pin_count:
  "map_option
     (\<lambda>(a, c1, c2).
        (map_option id_page (deref c1 a),
         map_option (\<lambda>p. sint (pin_count p)) (deref c1 a),
         map_option (\<lambda>p. sint (pin_count p)) (deref c2 a)))
     refetch_scenario
   = Some (Some 5, Some 0, Some 0)"
  by (simp add: refetch_scenario_def section_defs cache_defs Let_def)

section \<open>Pin counts\<close>

text \<open>
  C3, as stated: the pin count of every page is never negative. This fails: \<^verbatim>\<open>unpin()\<close>
  on a new page leaves its count at -1; so does \<^verbatim>\<open>unpin_page\<close> on the page that
  \<^verbatim>\<open>CacheSection::new_page\<close> has just returned; and after \<^verbatim>\<open>prefetch_page(5)\<close> and
  \<^verbatim>\<open>fetch_page(5, lock)\<close> on a cache, two calls of \<^verbatim>\<open>unpin_page\<close> leave page 5 with pin
  count -2 (it would be -1 had the fetch pinned the page).
\<close>

theorem c3_pin_count_counterexample:
  "sint (pin_count (snd (unpin (Page_new 1 4096)))) = - 1 \<and>
   map_option (map (\<lambda>(a, p). (id_page p, sint (pin_count p)))) section_unpin_scenario
     = Some [(1, - 1)] \<and>
   map_option (\<lambda>p. (id_page p, sint (pin_count p))) unpin_scenario = Some (5, - 2)"
  by (simp add: unpin_scenario_def section_unpin_scenario_def section_defs cache_defs Let_def)

text \<open>
  C3, amended: \<^verbatim>\<open>pin()\<close> adds one to the pin count and \<^verbatim>\<open>unpin()\<close> takes one away, with
  no floor at zero: after any sequence of fewer than \<open>2^31\<close> calls on a new page the
  count is the number of pins minus the number of unpins, so it is non-negative exactly
  when the unpins do not outnumber the pins. And the second definition of
  \<^verbatim>\<open>SimplifiedConfigurableCache::evictPage\<close>, the one that tests \<^verbatim>\<open>unpin() <= 0\<close>, evicts a
  page only if its pin count was at most 0 just before the call (the LRU list holds
  no identifier twice).
\<close>

theorem c3_pin_count_and_eviction:
  "(\<forall>ops i sz. length ops < 2 ^ 31 \<longrightarrow>
      sint (pin_count (apply_pin_ops ops (Page_new i sz)))
        = int (count_list ops Pin) - int (count_list ops Unpin)) \<and>
   (\<forall>c i a p. distinct (lru_list c) \<and> map_of (page_map_s c) i = Some (a, p) \<and>
      map_of (page_map_s (evictPage_second c)) i = None \<longrightarrow> sint (pin_count p) \<le> 0)"
proof (intro conjI allI impI)
  fix ops :: "pin_op list" and i sz
  assume "length ops < 2 ^ 31"
  then show "sint (pin_count (apply_pin_ops ops (Page_new i sz)))
        = int (count_list ops Pin) - int (count_list ops Unpin)"
    by (rule pin_count_after_ops)
next
  fix c i a p
  assume "distinct (lru_list c) \<and> map_of (page_map_s c) i = Some (a, p) \<and>
      map_of (page_map_s (evictPage_second c)) i = None"
  then show "sint (pin_count p) \<le> 0"
    using evict_scan_second_only_unpinned [of "length (lru_list c)" c i a p]
    by (simp add: evictPage_second_def)
qed

theorem c3_pin_count_and_eviction_witness:
  "sint (pin_count (apply_pin_ops [Pin, Unpin, Unpin] (Page_new 1 4096))) = - 1 \<and>
   map (\<lambda>(i, a, p). (i, sint (pin_count p))) (page_map_s evict_scenario) = [(1, 1), (2, 0)] \<and>
   map (\<lambda>(i, a, p). (i, sint (pin_count p))) (page_map_s (evictPage_second evict_scenario))
     = [(1, 0)] \<and>
   lru_list (evictPage_second evict_scenario) = [1]"
proof -
  have "length [Pin, Unpin, Unpin] < (2::nat) ^ 31" by simp
  with c3_pin_count_and_eviction
  have a: "sint (pin_count (apply_pin_ops [Pin, Unpin, Unpin] (Page_new 1 4096)))
        = int (count_list [Pin, Unpin, Unpin] Pin) - int (count_list [Pin, Unpin, Unpin] Unpin)"
    by blast
  have "distinct (lru_list evict_scenario) \<and>
      map_of (page_map_s evict_scenario) 2 = Some (1, Page_new 2 4096) \<and>
      map_of (page_map_s (evictPage_second evict_scenario)) 2 = None"
    by (simp add: evict_scenario_def evictPage_second_def Let_def unpin_def pin_def Page_new_def)
  with c3_pin_count_and_eviction have b: "sint (pin_count (Page_new 2 4096)) \<le> 0"
    by blast
  show ?thesis
    using a b
    by (simp add: evict_scenario_def evictPage_second_def Let_def unpin_def pin_def Page_new_def)
qed

section \<open>Statistics\<close>

text \<open>
  C4: in every state a cache reaches, every section has
  \<^verbatim>\<open>accesses == hits + misses\<close> (in \<^verbatim>\<open>size_t\<close> arithmetic, as the C++ expression
  computes it). The hit path and the miss path of \<^verbatim>\<open>fetch_page\<close>, \<^verbatim>\<open>new_page\<close> and
  \<^verbatim>\<open>reset_stats\<close> each keep the equality; no other operation changes the counters.
  The miss path and \<^verbatim>\<open>new_page\<close> are among the steps of the reachable states although
  the calls that lead to them stop at a lock.
\<close>

theorem c4_stats_consistent:
  assumes "reachable c m" and "(k, s) \<in> set (sections c)"
  shows "accesses (stats s) = hits (stats s) + misses (stats s)"
  using reachable_stats_consistent [OF assms(1)] assms(2)
  by (auto simp: all_sections_def list_all_iff stats_consistent_def)

theorem c4_stats_consistent_witness:
  "case refetch_scenario_state of
     Some (c, m) \<Rightarrow>
       reachable c m \<and>
       map (\<lambda>(k, s). (k, accesses (stats s), hits (stats s), misses (stats s))) (sections c)
         = [(0, 1, 1, 0)] \<and>
       list_all (\<lambda>(k, s). accesses (stats s) = hits (stats s) + misses (stats s)) (sections c)
   | None \<Rightarrow> False"
proof -
  obtain c m where st: "refetch_scenario_state = Some (c, m)" and r: "reachable c m"
    using refetch_scenario_state_reachable by blast
  have "list_all (\<lambda>(k, s). accesses (stats s) = hits (stats s) + misses (stats s)) (sections c)"
    using c4_stats_consistent [OF r] by (auto simp: list_all_iff)
  moreover have "map_option (\<lambda>(c, m). map (\<lambda>(k, s). (k, accesses (stats s), hits (stats s), misses (stats s))) (sections c)) refetch_scenario_state
      = Some [(0, 1, 1, 0)]"
    by (simp add: refetch_scenario_state_def section_defs cache_defs Let_def)
  then have "map (\<lambda>(k, s). (k, accesses (stats s), hits (stats s), misses (stats s))) (sections c)
      = [(0, 1, 1, 0)]"
    unfolding st by simp
  ultimately show ?thesis unfolding st using r by simp
qed

section \<open>LRU order\<close>

text \<open>
  C6 on a cache whose one section is fully associative and has 3 lines. Fetching 1,
  2, 3, 4 and then 2 does not come to an end: the first \<^verbatim>\<open>fetch_page(1, lock)\<close> is a
  miss, and on a miss \<^verbatim>\<open>CacheSection::fetch_page\<close> locks the mutex it holds. When the four
  pages are brought in by \<^verbatim>\<open>prefetch_page\<close> instead, the order from most to least
  recently used is \<open>[4, 3, 2]\<close> and page 1 has been evicted; \<^verbatim>\<open>fetch_page(2, lock)\<close> is then
  a hit that returns page 2, and the order after it is \<open>[2, 4, 3]\<close>.
\<close>

theorem c6_first_fetch_never_returns:
  "lru_scenario = None \<and>
   map_option (\<lambda>c. fetch_page c 1 process_start) (ConfigurableCache_new 12288 4096 4096)
     = Some None \<and>
   map_option
     (\<lambda>(s1, r, c2, s2).
        (structure_sec s1, pages_capacity s1, lru_order s1, page_map s1 1, hits (stats s1),
         map_option id_page (Option.bind r (deref c2)),
         lru_order s2, page_map s2 1, map (\<lambda>(a, p). id_page p) (owned_pages s2),
         accesses (stats s2), hits (stats s2), misses (stats s2)))
     lru_prefetch_scenario
   = Some (FullyAssociative, 3, [4, 3, 2], None, 0, Some 2, [2, 4, 3], None, [2, 4, 3], 1, 1, 0)"
  by (simp add: lru_scenario_def lru_prefetch_scenario_def section_defs cache_defs Let_def)

section \<open>Resize\<close>

text \<open>
  C7, as stated: a resize to a strictly smaller capacity discards only enough pages to
  fit. This fails: two pages are resident, the new capacity is two lines, and no page
  is left.
\<close>

theorem c7_resize_counterexample:
  "case resize_scenario of
     Some (s1, s2) \<Rightarrow>
       pages_capacity s1 = 3 \<and> page_count s1 = 2 \<and> pages_capacity s2 = 2 \<and> page_count s2 = 0 \<and>
       page_count s2 \<noteq> min (page_count s1) (pages_capacity s2)
   | None \<Rightarrow> False"
  by (simp add: resize_scenario_def section_defs cache_defs Let_def)

text \<open>
  C7, amended: a resize to the current size changes nothing. A resize to any other
  size, smaller or larger, discards every resident page, pinned or not, dirty or not:
  the sets are rebuilt empty, or the LRU list and its index are cleared, and the page
  count is 0. On a well-formed section the call returns.
\<close>

theorem c7_resize_discards_every_page:
  "resize s (size_sec s) = Some s \<and>
   (resize s new_size = Some s' \<and> new_size \<noteq> size_sec s \<longrightarrow>
      page_count s' = 0 \<and> size_sec s' = new_size \<and>
      pages_capacity s' = new_size div line_size s \<and>
      (if set_based (structure_sec s) then sets s' = fresh_sets (num_sets s') (associativity s)
       else pages s' = [] \<and> page_map s' = Map.empty)) \<and>
   (section_wf s \<longrightarrow> resize s new_size \<noteq> None)"
proof -
  have same: "resize s (size_sec s) = Some s" by (simp add: resize_def)
  have other: "resize s new_size = Some s' \<and> new_size \<noteq> size_sec s \<longrightarrow>
      page_count s' = 0 \<and> size_sec s' = new_size \<and>
      pages_capacity s' = new_size div line_size s \<and>
      (if set_based (structure_sec s) then sets s' = fresh_sets (num_sets s') (associativity s)
       else pages s' = [] \<and> page_map s' = Map.empty)"
    by (auto simp: resize_def page_count_def Let_def fresh_sets_no_valid split: if_splits)
  have returns: "section_wf s \<longrightarrow> resize s new_size \<noteq> None"
    by (auto simp: section_wf_def resize_def Let_def)
  show ?thesis using same other returns by (intro conjI)
qed

theorem c7_resize_discards_every_page_witness:
  "case resize_scenario of
     Some (s1, s2) \<Rightarrow>
       size_sec s1 = 12288 \<and> lru_order s1 = [2, 1] \<and> page_count s1 = 2 \<and>
       resize s1 8192 = Some s2 \<and> pages_capacity s2 = 2 \<and> page_count s2 = 0 \<and> lru_order s2 = [] \<and>
       resize s1 12288 = Some s1
   | None \<Rightarrow> False"
proof -
  define sc where "sc = the resize_scenario"
  have sc: "resize_scenario = Some (fst sc, snd sc)"
    unfolding sc_def by (simp add: resize_scenario_def section_defs cache_defs Let_def)
  have r: "resize (fst sc) 8192 = Some (snd sc)"
    unfolding sc_def by (simp add: resize_scenario_def section_defs cache_defs Let_def)
  have ne: "8192 \<noteq> size_sec (fst sc)"
    unfolding sc_def by (simp add: resize_scenario_def section_defs cache_defs Let_def)
  have before: "size_sec (fst sc) = 12288 \<and> lru_order (fst sc) = [2, 1] \<and> page_count (fst sc) = 2"
    unfolding sc_def by (simp add: resize_scenario_def section_defs cache_defs Let_def)
  have after: "pages_capacity (snd sc) = 2 \<and> lru_order (snd sc) = []"
    unfolding sc_def by (simp add: resize_scenario_def section_defs cache_defs Let_def)
  from c7_resize_discards_every_page [of "fst sc" 8192 "snd sc"] r ne
  have "page_count (snd sc) = 0" and "resize (fst sc) (size_sec (fst sc)) = Some (fst sc)"
    by simp_all
  then show ?thesis unfolding sc using r before after by (simp add: case_prod_beta)
qed

section \<open>Page identifiers\<close>


section \<open>Fetch of a page that is not resident\<close>

text \<open>
  C10: on a cache as the constructor leaves it, \<^verbatim>\<open>ConfigurableCache::fetch_page\<close> returns
  for no identifier, 0 included: the page is not resident, and on a miss
  \<^verbatim>\<open>CacheSection::fetch_page\<close> locks the section's mutex a second time. And in every state
  a cache reaches, a call of \<^verbatim>\<open>fetch_page\<close> that returns has hit: its pointer is not null
  and no page has been made.
\<close>

theorem c10_fetch_miss_never_returns:
  "(ConfigurableCache_new tsz psz dls = Some c0 \<longrightarrow> fetch_page c0 i m = None) \<and>
   (reachable c m \<and> fetch_page c i m = Some (r, c', m') \<longrightarrow> r \<noteq> None \<and> m' = m)"
proof -
  have new: "fetch_page c0 i m = None" if a: "ConfigurableCache_new tsz psz dls = Some c0"
  proof -
    from constructed_shape [OF a] obtain s where sec: "sections c0 = [(0, s)]"
      and d: "default_section_id c0 = 0" and pm: "page_to_section_map c0 = Map.empty"
      and pr: "page_ranges c0 = []" and fa: "structure_sec s = FullyAssociative"
      and em: "page_map s = Map.empty"
      by blast
    have f: "find_section_for_page Unlocked c0 i = Some 0"
      using sec d pm pr
      by (simp add: find_section_for_page_def default_or_first_def has_section_def lock_defs)
    have "fetch_page_sec s i = None"
      using fa em by (simp add: fetch_page_sec_def set_based_def lock_defs)
    then show ?thesis using f sec by (simp add: fetch_page_def)
  qed
  have hit: "r \<noteq> None \<and> m' = m"
    if re: "reachable c m" and run: "fetch_page c i m = Some (r, c', m')"
  proof -
    have sw: "all_sections section_wf c" using re by (rule reachable_section_wf)
    from run obtain sid s r1 s1 where s: "map_of (sections c) sid = Some s"
      and f: "fetch_page_sec s i = Some (r1, s1)"
      and rest: "(case r1 of Some a \<Rightarrow> Some (Some a, put_section sid s1 c, m)
              | None \<Rightarrow> do { (r2, s2, m2) \<leftarrow> new_page_sec s1 i m; Some (r2, put_section sid s2 c, m2) })
             = Some (r, c', m')"
      by (auto simp: fetch_page_def split: Option.bind_splits)
    have "r1 \<noteq> None"
      using fetch_page_sec_returns_hit [OF all_sections_lookup [OF sw s] f] by simp
    then show ?thesis using rest by auto
  qed
  show ?thesis using new hit by blast
qed

theorem c10_fetch_miss_never_returns_witness:
  "ConfigurableCache_new 4096 4096 4096 \<noteq> None \<and>
   fetch_page (the (ConfigurableCache_new 4096 4096 4096)) 0 process_start = None \<and>
   (\<exists>c1 m1 c2.
      prefetch_page (the (ConfigurableCache_new 4096 4096 4096)) 5 process_start = Some (c1, m1) \<and>
      reachable c1 m1 \<and> fetch_page c1 5 m1 = Some (Some 0, c2, m1))"
proof -
  define c0 where "c0 = the (ConfigurableCache_new 4096 4096 4096)"
  have c0: "ConfigurableCache_new 4096 4096 4096 = Some c0"
    unfolding c0_def by (simp add: section_defs cache_defs Let_def)
  then have r0: "reachable c0 process_start" by (rule reachable.constructed)
  define x where "x = the (prefetch_page c0 5 process_start)"
  have p: "prefetch_page c0 5 process_start = Some (fst x, snd x)"
    unfolding x_def c0_def by (simp add: section_defs cache_defs Let_def)
  have r1: "reachable (fst x) (snd x)" using reachable_prefetch_page [OF r0 p] .
  define y where "y = the (fetch_page (fst x) 5 (snd x))"
  have f: "fetch_page (fst x) 5 (snd x) = Some (fst y, fst (snd y), snd (snd y))"
    unfolding y_def x_def c0_def by (simp add: section_defs cache_defs Let_def)
  have y0: "fst y = Some 0"
    unfolding y_def x_def c0_def by (simp add: section_defs cache_defs Let_def)
  from c10_fetch_miss_never_returns [of 4096 4096 4096 c0 0 process_start] c0
  have none: "fetch_page c0 0 process_start = None"
    by simp
  from c10_fetch_miss_never_returns
         [where c = "fst x" and i = 5 and m = "snd x" and r = "fst y" and c' = "fst (snd y)"
            and m' = "snd (snd y)"] r1 f
  have same: "snd (snd y) = snd x"
    by simp
  have "fetch_page (fst x) 5 (snd x) = Some (Some 0, fst (snd y), snd x)"
    using f y0 same by simp
  then have "\<exists>c1 m1 c2. prefetch_page c0 5 process_start = Some (c1, m1) \<and>
      reachable c1 m1 \<and> fetch_page c1 5 m1 = Some (Some 0, c2, m1)"
    using p r1 by blast
  then show ?thesis unfolding c0_def [symmetric] using c0 none by simp
qed

end
